theory Spec2Isabelle
  imports Main "HOL-Library.AList"
begin

section \<open>JavaScript values\<close>

text \<open>
  The values that \<^verbatim>\<open>src/models/memory.js\<close> handles: a session handed to \<^verbatim>\<open>set\<close> or
  \<^verbatim>\<open>touch\<close>, and what \<^verbatim>\<open>JSON.parse\<close> gives back. Numbers are the integer-valued ones
  (a time stamp in milliseconds, a countdown of sweep cycles), each given by the integer
  it is; comparing two of them is exact, subtracting is not (see \<open>decrement\<close>). An
  object is the list of its own properties, in the order in which the engine enumerates
  them.
\<close>

datatype jsval =
    JUndefined
  | JNull
  | JBool bool
  | JNum int
  | JBigInt int
  | JStr string
  | JArr "jsval list"
  | JObj "(string \<times> jsval) list"

text \<open>What a \<^verbatim>\<open>throw\<close> of the engine carries.\<close>

datatype error = TypeError | SyntaxError

text \<open>\<^verbatim>\<open>!v\<close> is false exactly for the truthy values.\<close>

fun truthy :: "jsval \<Rightarrow> bool" where
  "truthy JUndefined = False"
| "truthy JNull = False"
| "truthy (JBool b) = b"
| "truthy (JNum n) = (n \<noteq> 0)"
| "truthy (JBigInt n) = (n \<noteq> 0)"
| "truthy (JStr s) = (s \<noteq> [])"
| "truthy (JArr xs) = True"
| "truthy (JObj kvs) = True"

text \<open>
  \<^verbatim>\<open>v.k\<close> for a property name \<open>k\<close> that no prototype defines (the code reads
  \<^verbatim>\<open>cookie\<close> and \<^verbatim>\<open>expires\<close> only): a \<^verbatim>\<open>TypeError\<close> on \<^verbatim>\<open>undefined\<close> and \<^verbatim>\<open>null\<close>,
  the own property of an object, \<^verbatim>\<open>undefined\<close> otherwise.
\<close>

fun get_prop :: "jsval \<Rightarrow> string \<Rightarrow> error + jsval" where
  "get_prop JUndefined k = Inl TypeError"
| "get_prop JNull k = Inl TypeError"
| "get_prop (JObj kvs) k = Inr (case map_of kvs k of None \<Rightarrow> JUndefined | Some v \<Rightarrow> v)"
| "get_prop v k = Inr JUndefined"

text \<open>
  \<^verbatim>\<open>v.k = x\<close>: an object gets or replaces its own property. On a primitive the
  assignment is dropped (the module is not in strict mode), and an array's named
  property never reaches its serialised form.
\<close>

fun set_prop :: "jsval \<Rightarrow> string \<Rightarrow> jsval \<Rightarrow> jsval" where
  "set_prop (JObj kvs) k x = JObj (AList.update k x kvs)"
| "set_prop v k x = v"

section \<open>What the engine supplies\<close>

text \<open>
  \<^verbatim>\<open>JSON.stringify\<close>, \<^verbatim>\<open>JSON.parse\<close>, \<^verbatim>\<open>new Date(string)\<close> and the coercion of a
  non-primitive operand of \<^verbatim>\<open><=\<close> belong to the JavaScript engine, not to this
  repository. The store is modelled over any such engine:
  \<^item> \<open>JSON_stringify\<close> throws (\<open>Inl\<close>), or returns \<^verbatim>\<open>undefined\<close> (\<open>Inr None\<close>) or a string;
  \<^item> \<open>JSON_parse\<close> throws or returns the decoded value;
  \<^item> \<open>Date_parse s\<close> is the time value of \<^verbatim>\<open>new Date(s)\<close>, \<open>None\<close> for an invalid date;
  \<^item> \<open>ToNumber v\<close> is the number a string, array or object \<open>v\<close> is coerced to
    (\<open>Inr None\<close> for \<^verbatim>\<open>NaN\<close>), or the error its conversion throws.
\<close>

record platform =
  JSON_stringify :: "jsval \<Rightarrow> error + string option"
  JSON_parse :: "string \<Rightarrow> error + jsval"
  Date_parse :: "string \<Rightarrow> int option"
  ToNumber :: "jsval \<Rightarrow> error + int option"

text \<open>\<^verbatim>\<open>v <= n\<close> for a number \<open>n\<close>; a comparison with \<^verbatim>\<open>NaN\<close> is false.\<close>

fun le_Number :: "platform \<Rightarrow> jsval \<Rightarrow> int \<Rightarrow> error + bool" where
  "le_Number P JUndefined n = Inr False"
| "le_Number P JNull n = Inr (0 \<le> n)"
| "le_Number P (JBool b) n = Inr ((if b then 1 else 0) \<le> n)"
| "le_Number P (JNum m) n = Inr (m \<le> n)"
| "le_Number P (JBigInt m) n = Inr (m \<le> n)"
| "le_Number P v n =
     (case ToNumber P v of
        Inl e \<Rightarrow> Inl e
      | Inr None \<Rightarrow> Inr False
      | Inr (Some m) \<Rightarrow> Inr (m \<le> n))"

text \<open>
  A JavaScript number is a binary64 double. An integer up to \<open>2^53\<close> in magnitude is a
  double; a larger one is rounded to the nearest double, which is a multiple of the
  spacing of its binade (53 significant bits), the even multiple on a tie.
\<close>

function bit_length :: "int \<Rightarrow> nat" where
  "bit_length n = (if n \<le> 0 then 0 else Suc (bit_length (n div 2)))"
  by pat_completeness auto
termination
  by (relation "measure nat") auto

declare bit_length.simps [simp del]

definition round_double :: "int \<Rightarrow> int" where
  "round_double x =
     (if \<bar>x\<bar> \<le> 2 ^ 53 then x
      else
        let u = 2 ^ (bit_length \<bar>x\<bar> - 53);
            q = x div u;
            r = x mod u
        in if 2 * r < u then q * u
           else if u < 2 * r then (q + 1) * u
           else if even q then q * u
           else (q + 1) * u)"

text \<open>\<^verbatim>\<open>x--\<close> on a number: the double nearest to \<open>x - 1\<close>.\<close>

definition decrement :: "int \<Rightarrow> int" where
  "decrement x = round_double (x - 1)"

section \<open>The store\<close>

text \<open>
  The fields of a \<^verbatim>\<open>MemoryStore\<close>. \<open>sessions\<close> is the Record Table: a key holds a
  string, or \<^verbatim>\<open>undefined\<close> (\<open>None\<close>) when \<^verbatim>\<open>JSON.stringify\<close> returned that.
  \<open>session_timers\<close> is the Timer Table. \<open>options_timeout\<close> is \<^verbatim>\<open>this.options.timeout\<close>.
  \<open>session_timeout_checker\<close> tells whether the constructor installed the interval.
\<close>

record store =
  sessions :: "(string \<times> string option) list"
  session_timers :: "(string \<times> int) list"
  options_timeout :: int
  session_timeout_checker :: bool

text \<open>
  The constructor (lines 27 to 61); its argument is \<^verbatim>\<open>options.timeout\<close>, an integer,
  or \<open>None\<close> when \<^verbatim>\<open>options\<close> or its \<^verbatim>\<open>timeout\<close> is undefined.
\<close>

definition MemoryStore :: "int option \<Rightarrow> store" where
  "MemoryStore options =
     (let t = (case options of None \<Rightarrow> - 1 | Some v \<Rightarrow> v)
      in \<lparr>sessions = [], session_timers = [], options_timeout = t,
          session_timeout_checker = (0 \<le> t)\<rparr>)"

text \<open>\<^verbatim>\<open>destroy\<close> (lines 112 to 116).\<close>

definition MemoryStore_destroy :: "string \<Rightarrow> store \<Rightarrow> store" where
  "MemoryStore_destroy sessionId st =
     st\<lparr>session_timers := AList.delete sessionId (session_timers st),
        sessions := AList.delete sessionId (sessions st)\<rparr>"

text \<open>\<^verbatim>\<open>clear\<close> (lines 99 to 103).\<close>

definition MemoryStore_clear :: "store \<Rightarrow> store" where
  "MemoryStore_clear st = st\<lparr>sessions := [], session_timers := []\<rparr>"

text \<open>
  The body of the interval's loop (lines 51 to 56) for one key of the Timer Table. A
  key that is gone when its turn comes is not visited.
\<close>

definition sweep_key :: "string \<Rightarrow> store \<Rightarrow> store" where
  "sweep_key sessionId st =
     (case map_of (session_timers st) sessionId of
        None \<Rightarrow> st
      | Some t \<Rightarrow>
          if t = 0 then MemoryStore_destroy sessionId st
          else st\<lparr>session_timers :=
                 AList.update sessionId (decrement t) (session_timers st)\<rparr>)"

text \<open>The interval's callback (lines 48 to 58): one sweep cycle over the Timer Table.\<close>

definition session_timeout_check :: "store \<Rightarrow> store" where
  "session_timeout_check st = fold sweep_key (map fst (session_timers st)) st"

text \<open>
  One period of the interval elapses. The callback runs only if the constructor
  installed it (line 46).
\<close>

definition interval_elapsed :: "store \<Rightarrow> store" where
  "interval_elapsed st = (if session_timeout_checker st then session_timeout_check st else st)"

text \<open>
  Lines 204 to 209: \<^verbatim>\<open>expires\<close> is a \<^verbatim>\<open>Date\<close> when the stored value is a string, the
  stored value otherwise; the session is expired when \<^verbatim>\<open>expires && expires <= Date.now()\<close>.
  A \<^verbatim>\<open>Date\<close> is an object, so it is truthy also when invalid, and it compares by its
  time value.
\<close>

definition expired :: "platform \<Rightarrow> int \<Rightarrow> jsval \<Rightarrow> error + bool" where
  "expired P now e =
     (case e of
        JStr s \<Rightarrow> Inr (case Date_parse P s of None \<Rightarrow> False | Some t \<Rightarrow> t \<le> now)
      | _ \<Rightarrow> if truthy e then le_Number P e now else Inr False)"

text \<open>\<^verbatim>\<open>sess.cookie.expires\<close>, for a decoded session.\<close>

definition cookie_expires :: "jsval \<Rightarrow> error + jsval" where
  "cookie_expires sess =
     (case get_prop sess ''cookie'' of
        Inl e \<Rightarrow> Inl e
      | Inr cookie \<Rightarrow> get_prop cookie ''expires'')"

text \<open>Lines 204 to 209 for a decoded session: the read, then the test.\<close>

definition session_expired :: "platform \<Rightarrow> int \<Rightarrow> jsval \<Rightarrow> error + bool" where
  "session_expired P now sess =
     (case cookie_expires sess of
        Inl e \<Rightarrow> Inl e
      | Inr e \<Rightarrow> expired P now e)"

text \<open>
  \<^verbatim>\<open>getSession\<close> (lines 188 to 216), with \<open>now\<close> the value of \<^verbatim>\<open>Date.now()\<close>. The
  result is the value returned (\<^verbatim>\<open>undefined\<close> for a bare \<^verbatim>\<open>return\<close>) or the error
  thrown, and the store as the call leaves it.
\<close>

definition getSession :: "platform \<Rightarrow> int \<Rightarrow> string \<Rightarrow> store \<Rightarrow> (error + jsval) \<times> store" where
  "getSession P now sessionId st =
     (case map_of (sessions st) sessionId of
        None \<Rightarrow> (Inr JUndefined, st)
      | Some None \<Rightarrow> (Inr JUndefined, st)
      | Some (Some sess) \<Rightarrow>
          if sess = [] then (Inr JUndefined, st)
          else
            let st1 = st\<lparr>session_timers :=
                          AList.update sessionId (options_timeout st) (session_timers st)\<rparr>
            in (case JSON_parse P sess of
                  Inl e \<Rightarrow> (Inl e, st1)
                | Inr sess' \<Rightarrow>
                    (case session_expired P now sess' of
                       Inl e \<Rightarrow> (Inl e, st1)
                     | Inr True \<Rightarrow>
                         (Inr JUndefined,
                          st1\<lparr>sessions := AList.delete sessionId (sessions st1),
                              session_timers := AList.delete sessionId (session_timers st1)\<rparr>)
                     | Inr False \<Rightarrow> (Inr sess', st1))))"

text \<open>
  \<^verbatim>\<open>get\<close> (lines 126 to 128): the callback receives what \<^verbatim>\<open>getSession\<close> returned; an
  error thrown there reaches the caller of \<^verbatim>\<open>get\<close>.
\<close>

definition MemoryStore_get :: "platform \<Rightarrow> int \<Rightarrow> string \<Rightarrow> store \<Rightarrow> (error + jsval) \<times> store" where
  "MemoryStore_get P now sessionId st = getSession P now sessionId st"

text \<open>
  The loop of \<^verbatim>\<open>all\<close> (lines 80 to 87) over the keys read at line 77, collecting the
  sessions found. The loop does not yield, and the clock is read as one value \<open>now\<close>
  for all of it.
\<close>

fun all_loop ::
  "platform \<Rightarrow> int \<Rightarrow> string list \<Rightarrow> (string \<times> jsval) list \<Rightarrow> store
     \<Rightarrow> (error + (string \<times> jsval) list) \<times> store" where
  "all_loop P now [] acc st = (Inr acc, st)"
| "all_loop P now (sessionId # ids) acc st =
     (case getSession P now sessionId st of
        (Inl e, st1) \<Rightarrow> (Inl e, st1)
      | (Inr session, st1) \<Rightarrow>
          all_loop P now ids
            (if truthy session then AList.update sessionId session acc else acc) st1)"

definition MemoryStore_all ::
  "platform \<Rightarrow> int \<Rightarrow> store \<Rightarrow> (error + (string \<times> jsval) list) \<times> store" where
  "MemoryStore_all P now st = all_loop P now (map fst (sessions st)) [] st"

text \<open>\<^verbatim>\<open>length\<close> (lines 146 to 151): the number of sessions \<^verbatim>\<open>all\<close> hands over.\<close>

definition MemoryStore_length :: "platform \<Rightarrow> int \<Rightarrow> store \<Rightarrow> (error + nat) \<times> store" where
  "MemoryStore_length P now st =
     (case MemoryStore_all P now st of
        (Inl e, st1) \<Rightarrow> (Inl e, st1)
      | (Inr found, st1) \<Rightarrow> (Inr (length found), st1))"

text \<open>
  \<^verbatim>\<open>set\<close> (lines 153 to 160). The countdown is written at line 156, before
  \<^verbatim>\<open>JSON.stringify\<close> runs at line 158.
\<close>

definition MemoryStore_set ::
  "platform \<Rightarrow> string \<Rightarrow> jsval \<Rightarrow> store \<Rightarrow> (error + unit) \<times> store" where
  "MemoryStore_set P sessionId session st =
     (let st1 =
        (case map_of (sessions st) sessionId of
           Some (Some s) \<Rightarrow> st
         | _ \<Rightarrow> st\<lparr>session_timers :=
                    AList.update sessionId (options_timeout st) (session_timers st)\<rparr>)
      in (case JSON_stringify P session of
            Inl e \<Rightarrow> (Inl e, st1)
          | Inr s \<Rightarrow> (Inr (), st1\<lparr>sessions := AList.update sessionId s (sessions st1)\<rparr>)))"

text \<open>\<^verbatim>\<open>touch\<close> (lines 171 to 181).\<close>

definition MemoryStore_touch ::
  "platform \<Rightarrow> int \<Rightarrow> string \<Rightarrow> jsval \<Rightarrow> store \<Rightarrow> (error + unit) \<times> store" where
  "MemoryStore_touch P now sessionId session st =
     (case getSession P now sessionId st of
        (Inl e, st1) \<Rightarrow> (Inl e, st1)
      | (Inr currentSession, st1) \<Rightarrow>
          if truthy currentSession then
            (case get_prop session ''cookie'' of
               Inl e \<Rightarrow> (Inl e, st1)
             | Inr c \<Rightarrow>
                 (case JSON_stringify P (set_prop currentSession ''cookie'' c) of
                    Inl e \<Rightarrow> (Inl e, st1)
                  | Inr s \<Rightarrow>
                      (Inr (), st1\<lparr>sessions := AList.update sessionId s (sessions st1)\<rparr>)))
          else (Inr (), st1))"

section \<open>Calls on the store\<close>

text \<open>
  What a caller, or the interval, can do to a store: the public methods and one period
  of the interval.
\<close>

datatype operation =
    Op_get string
  | Op_set string jsval
  | Op_touch string jsval
  | Op_destroy string
  | Op_all
  | Op_clear
  | Op_length
  | Op_sweep

text \<open>
  The store as an operation leaves it when called at time \<open>now\<close>, whether the call
  completes or throws: what the caller can observe next.
\<close>

fun after :: "platform \<Rightarrow> int \<times> operation \<Rightarrow> store \<Rightarrow> store" where
  "after P (now, Op_get sessionId) st = snd (MemoryStore_get P now sessionId st)"
| "after P (now, Op_set sessionId session) st = snd (MemoryStore_set P sessionId session st)"
| "after P (now, Op_touch sessionId session) st =
     snd (MemoryStore_touch P now sessionId session st)"
| "after P (now, Op_destroy sessionId) st = MemoryStore_destroy sessionId st"
| "after P (now, Op_all) st = snd (MemoryStore_all P now st)"
| "after P (now, Op_clear) st = MemoryStore_clear st"
| "after P (now, Op_length) st = snd (MemoryStore_length P now st)"
| "after P (now, Op_sweep) st = interval_elapsed st"

definition run :: "platform \<Rightarrow> (int \<times> operation) list \<Rightarrow> store \<Rightarrow> store" where
  "run P ops st = fold (after P) ops st"

text \<open>The keys of the Record Table and of the Timer Table.\<close>

definition record_keys :: "store \<Rightarrow> string set" where
  "record_keys st = fst ` set (sessions st)"

definition timer_keys :: "store \<Rightarrow> string set" where
  "timer_keys st = fst ` set (session_timers st)"

text \<open>
  The string that the Record Table holds under an id, where \<^verbatim>\<open>getSession\<close> goes on
  past line 196, and what \<^verbatim>\<open>JSON.parse\<close> makes of it at line 202: the stored record
  (\<open>Inr\<close>) or the error thrown (\<open>Inl\<close>).
\<close>

definition stored :: "store \<Rightarrow> string \<Rightarrow> string option" where
  "stored st sessionId =
     (case map_of (sessions st) sessionId of
        Some (Some s) \<Rightarrow> if s = [] then None else Some s
      | _ \<Rightarrow> None)"

definition decoded :: "platform \<Rightarrow> store \<Rightarrow> string \<Rightarrow> (error + jsval) option" where
  "decoded P st sessionId = map_option (JSON_parse P) (stored st sessionId)"

text \<open>
  The codec is lossless on a value: encoding gives a string (never the empty one, as
  JSON text is not empty) that decodes to the same value.
\<close>

definition lossless :: "platform \<Rightarrow> jsval \<Rightarrow> bool" where
  "lossless P v =
     (case JSON_stringify P v of
        Inr (Some s) \<Rightarrow> s \<noteq> [] \<and> JSON_parse P s = Inr v
      | _ \<Rightarrow> False)"

text \<open>A decoded value that is not an object with a \<^verbatim>\<open>cookie\<close> property.\<close>

definition lacks_cookie :: "jsval \<Rightarrow> bool" where
  "lacks_cookie v = (case v of JObj kvs \<Rightarrow> map_of kvs ''cookie'' = None | _ \<Rightarrow> True)"

text \<open>The error an operation throws at its caller, if it throws.\<close>

definition raised :: "error + 'a \<Rightarrow> error option" where
  "raised r = (case r of Inl e \<Rightarrow> Some e | Inr x \<Rightarrow> None)"

fun thrown :: "platform \<Rightarrow> int \<times> operation \<Rightarrow> store \<Rightarrow> error option" where
  "thrown P (now, Op_get sessionId) st = raised (fst (MemoryStore_get P now sessionId st))"
| "thrown P (now, Op_set sessionId session) st =
     raised (fst (MemoryStore_set P sessionId session st))"
| "thrown P (now, Op_touch sessionId session) st =
     raised (fst (MemoryStore_touch P now sessionId session st))"
| "thrown P (now, Op_destroy sessionId) st = None"
| "thrown P (now, Op_all) st = raised (fst (MemoryStore_all P now st))"
| "thrown P (now, Op_clear) st = None"
| "thrown P (now, Op_length) st = raised (fst (MemoryStore_length P now st))"
| "thrown P (now, Op_sweep) st = None"

text \<open>
  A store whose configured timeout is \<open>t\<close>, with the interval installed exactly when
  \<open>t\<close> is not negative, and whose tables hold each key once, as the properties of an
  object do.
\<close>

definition configured :: "int \<Rightarrow> store \<Rightarrow> bool" where
  "configured t st \<longleftrightarrow>
     options_timeout st = t \<and> session_timeout_checker st = (0 \<le> t)
     \<and> distinct (map fst (session_timers st)) \<and> distinct (map fst (sessions st))"

section \<open>An engine to run the store on\<close>

text \<open>
  An instance of the engine for running the store on concrete sessions. It covers a
  fragment of what a JavaScript engine does: the compact JSON text of values built from
  \<^verbatim>\<open>null\<close>, booleans, integers, strings of printable ASCII characters, arrays and
  objects, and dates in the 24-character form of \<^verbatim>\<open>toISOString\<close>. As
  \<^verbatim>\<open>JSON.stringify\<close> does, it returns \<^verbatim>\<open>undefined\<close> for \<^verbatim>\<open>undefined\<close>, leaves an
  undefined property out, writes an undefined array element as \<^verbatim>\<open>null\<close> and throws a
  \<^verbatim>\<open>TypeError\<close> on a \<^verbatim>\<open>BigInt\<close>.
\<close>

definition quote :: char where
  "quote = CHR 0x22"

definition backslash :: char where
  "backslash = CHR 0x5C"

fun digits_text :: "nat \<Rightarrow> string" where
  "digits_text n =
     (if n < 10 then [''0123456789'' ! n]
      else digits_text (n div 10) @ [''0123456789'' ! (n mod 10)])"

declare digits_text.simps [simp del]

definition number_text :: "int \<Rightarrow> string" where
  "number_text n = (if n < 0 then ''-'' @ digits_text (nat (- n)) else digits_text (nat n))"

definition string_text :: "string \<Rightarrow> string" where
  "string_text s =
     quote # concat (map (\<lambda>c. if c = quote \<or> c = backslash then [backslash, c] else [c]) s)
       @ [quote]"

fun join :: "string list \<Rightarrow> string" where
  "join [] = []"
| "join [t] = t"
| "join (t # ts) = t @ '','' @ join ts"

fun ser :: "jsval \<Rightarrow> error + string option"
  and ser_elems :: "jsval list \<Rightarrow> error + string list"
  and ser_members :: "(string \<times> jsval) list \<Rightarrow> error + string list" where
  "ser JUndefined = Inr None"
| "ser JNull = Inr (Some ''null'')"
| "ser (JBool b) = Inr (Some (if b then ''true'' else ''false''))"
| "ser (JNum n) = Inr (Some (number_text n))"
| "ser (JBigInt n) = Inl TypeError"
| "ser (JStr s) = Inr (Some (string_text s))"
| "ser (JArr xs) =
     (case ser_elems xs of Inl e \<Rightarrow> Inl e | Inr ts \<Rightarrow> Inr (Some (''['' @ join ts @ '']'')))"
| "ser (JObj kvs) =
     (case ser_members kvs of Inl e \<Rightarrow> Inl e | Inr ts \<Rightarrow> Inr (Some (''{'' @ join ts @ ''}'')))"
| "ser_elems [] = Inr []"
| "ser_elems (x # xs) =
     (case ser x of
        Inl e \<Rightarrow> Inl e
      | Inr t \<Rightarrow>
          (case ser_elems xs of
             Inl e \<Rightarrow> Inl e
           | Inr ts \<Rightarrow> Inr ((case t of None \<Rightarrow> ''null'' | Some s \<Rightarrow> s) # ts)))"
| "ser_members [] = Inr []"
| "ser_members ((k, v) # kvs) =
     (case ser v of
        Inl e \<Rightarrow> Inl e
      | Inr t \<Rightarrow>
          (case ser_members kvs of
             Inl e \<Rightarrow> Inl e
           | Inr ts \<Rightarrow>
               Inr (case t of None \<Rightarrow> ts | Some s \<Rightarrow> (string_text k @ '':'' @ s) # ts)))"

fun scan_string :: "string \<Rightarrow> (string \<times> string) option" where
  "scan_string [] = None"
| "scan_string (c # r) =
     (if c = quote then Some ([], r)
      else if c = backslash then
        (case r of
           [] \<Rightarrow> None
         | d # r' \<Rightarrow>
             if d = quote \<or> d = backslash
             then map_option (\<lambda>(s, t). (d # s, t)) (scan_string r')
             else None)
      else map_option (\<lambda>(s, t). (c # s, t)) (scan_string r))"

definition is_digit :: "char \<Rightarrow> bool" where
  "is_digit c = (c \<in> set ''0123456789'')"

definition digit_val :: "char \<Rightarrow> nat" where
  "digit_val c = of_char c - 48"

definition scan_digits :: "string \<Rightarrow> (nat \<times> string) option" where
  "scan_digits s =
     (let ds = takeWhile is_digit s
      in if ds = [] \<or> (hd ds = CHR ''0'' \<and> length ds > 1) then None
         else Some (foldl (\<lambda>a c. 10 * a + digit_val c) 0 ds, dropWhile is_digit s))"

text \<open>
  The parser takes fuel for the nesting depth; the length of the text is enough. An
  object takes the last value of a repeated key, at the place of the first.
\<close>

fun scan_value :: "nat \<Rightarrow> string \<Rightarrow> (jsval \<times> string) option"
  and scan_elems :: "nat \<Rightarrow> string \<Rightarrow> (jsval list \<times> string) option"
  and scan_members :: "nat \<Rightarrow> string \<Rightarrow> ((string \<times> jsval) list \<times> string) option" where
  "scan_value 0 s = None"
| "scan_value (Suc n) s =
     (if take 4 s = ''null'' then Some (JNull, drop 4 s)
      else if take 4 s = ''true'' then Some (JBool True, drop 4 s)
      else if take 5 s = ''false'' then Some (JBool False, drop 5 s)
      else if take 1 s = [quote] then map_option (\<lambda>(t, r). (JStr t, r)) (scan_string (drop 1 s))
      else if take 2 s = ''[]'' then Some (JArr [], drop 2 s)
      else if take 1 s = ''['' then map_option (\<lambda>(xs, r). (JArr xs, r)) (scan_elems n (drop 1 s))
      else if take 2 s = ''{}'' then Some (JObj [], drop 2 s)
      else if take 1 s = ''{'' then
        map_option (\<lambda>(kvs, r). (JObj (foldl (\<lambda>al (k, v). AList.update k v al) [] kvs), r))
          (scan_members n (drop 1 s))
      else if take 1 s = ''-'' then
        map_option (\<lambda>(m, r). (JNum (- int m), r)) (scan_digits (drop 1 s))
      else map_option (\<lambda>(m, r). (JNum (int m), r)) (scan_digits s))"
| "scan_elems 0 s = None"
| "scan_elems (Suc n) s =
     (case scan_value n s of
        None \<Rightarrow> None
      | Some (x, r) \<Rightarrow>
          if take 1 r = '']'' then Some ([x], drop 1 r)
          else if take 1 r = '','' then
            map_option (\<lambda>(xs, r'). (x # xs, r')) (scan_elems n (drop 1 r))
          else None)"
| "scan_members 0 s = None"
| "scan_members (Suc n) s =
     (if take 1 s = [quote] then
        (case scan_string (drop 1 s) of
           None \<Rightarrow> None
         | Some (k, r) \<Rightarrow>
             if take 1 r = '':'' then
               (case scan_value n (drop 1 r) of
                  None \<Rightarrow> None
                | Some (v, r') \<Rightarrow>
                    if take 1 r' = ''}'' then Some ([(k, v)], drop 1 r')
                    else if take 1 r' = '','' then
                      map_option (\<lambda>(kvs, r''). ((k, v) # kvs, r'')) (scan_members n (drop 1 r'))
                    else None)
             else None)
      else None)"

definition json_parse :: "string \<Rightarrow> error + jsval" where
  "json_parse s =
     (case scan_value (Suc (length s)) s of
        Some (v, []) \<Rightarrow> Inr v
      | _ \<Rightarrow> Inl SyntaxError)"

text \<open>Days from 1970-01-01 to a date of the proleptic Gregorian calendar.\<close>

definition days_from_civil :: "int \<Rightarrow> int \<Rightarrow> int \<Rightarrow> int" where
  "days_from_civil y m d =
     (let y' = (if m \<le> 2 then y - 1 else y);
          era = y' div 400;
          yoe = y' - era * 400;
          doy = (153 * (if m > 2 then m - 3 else m + 9) + 2) div 5 + d - 1;
          doe = yoe * 365 + yoe div 4 - yoe div 100 + doy
      in era * 146097 + doe - 719468)"

definition days_in_month :: "int \<Rightarrow> int \<Rightarrow> int" where
  "days_in_month y m =
     (if m = 2 then (if y mod 4 = 0 \<and> (y mod 100 \<noteq> 0 \<or> y mod 400 = 0) then 29 else 28)
      else if m = 4 \<or> m = 6 \<or> m = 9 \<or> m = 11 then 30 else 31)"

definition field :: "string \<Rightarrow> nat \<Rightarrow> nat \<Rightarrow> int option" where
  "field s i n =
     (let ds = take n (drop i s)
      in if length ds = n \<and> list_all is_digit ds
         then Some (int (foldl (\<lambda>a c. 10 * a + digit_val c) 0 ds)) else None)"

definition iso_date_parse :: "string \<Rightarrow> int option" where
  "iso_date_parse s =
     (if length s = 24 \<and> map ((!) s) [4, 7, 10, 13, 16, 19, 23] = ''--T::.Z'' then
        (case (field s 0 4, field s 5 2, field s 8 2, field s 11 2, field s 14 2,
               field s 17 2, field s 20 3) of
           (Some y, Some mo, Some d, Some h, Some mi, Some se, Some ms) \<Rightarrow>
             if 1 \<le> mo \<and> mo \<le> 12 \<and> 1 \<le> d \<and> d \<le> days_in_month y mo
                \<and> h \<le> 23 \<and> mi \<le> 59 \<and> se \<le> 59
             then Some ((((days_from_civil y mo d * 24 + h) * 60 + mi) * 60 + se) * 1000 + ms)
             else None
         | _ \<Rightarrow> None)
      else None)"

text \<open>
  The coercion to a number, which no example below exercises, is given for the empty
  array, an array of one number and a plain object; other operands are left as \<^verbatim>\<open>NaN\<close>.
\<close>

definition to_number :: "jsval \<Rightarrow> error + int option" where
  "to_number v =
     (case v of
        JArr [] \<Rightarrow> Inr (Some 0)
      | JArr [JNum n] \<Rightarrow> Inr (Some n)
      | _ \<Rightarrow> Inr None)"

definition engine :: platform where
  "engine = \<lparr>JSON_stringify = ser, JSON_parse = json_parse, Date_parse = iso_date_parse,
             ToNumber = to_number\<rparr>"

text \<open>
  The values on which this codec does what \<^verbatim>\<open>JSON.stringify\<close> and \<^verbatim>\<open>JSON.parse\<close> do,
  and loses nothing: \<^verbatim>\<open>null\<close>, booleans, integers up to \<open>2^53\<close> in magnitude, strings
  of printable ASCII characters, arrays of such values, and objects of such values
  whose keys are distinct strings of printable ASCII characters that do not begin with
  a digit (so none is an array index, which an engine enumerates first). Not
  \<^verbatim>\<open>undefined\<close>, which the encoder drops, and not a \<^verbatim>\<open>BigInt\<close>, which it throws on.
\<close>

definition printable :: "char \<Rightarrow> bool" where
  "printable c \<longleftrightarrow> 32 \<le> (of_char c :: nat) \<and> (of_char c :: nat) \<le> 126"

definition key_ok :: "string \<Rightarrow> bool" where
  "key_ok k \<longleftrightarrow> list_all printable k \<and> (case k of [] \<Rightarrow> True | c # cs \<Rightarrow> \<not> is_digit c)"

fun supported :: "jsval \<Rightarrow> bool"
  and supported_elems :: "jsval list \<Rightarrow> bool"
  and supported_members :: "(string \<times> jsval) list \<Rightarrow> bool" where
  "supported JUndefined = False"
| "supported JNull = True"
| "supported (JBool b) = True"
| "supported (JNum n) = (\<bar>n\<bar> \<le> 2 ^ 53)"
| "supported (JBigInt n) = False"
| "supported (JStr s) = list_all printable s"
| "supported (JArr xs) = supported_elems xs"
| "supported (JObj kvs) = (distinct (map fst kvs) \<and> supported_members kvs)"
| "supported_elems [] = True"
| "supported_elems (x # xs) = (supported x \<and> supported_elems xs)"
| "supported_members [] = True"
| "supported_members ((k, v) # kvs) = (key_ok k \<and> supported v \<and> supported_members kvs)"

text \<open>What may follow a number in JSON text: nothing, or a character that is no digit.\<close>

definition delim :: "string \<Rightarrow> bool" where
  "delim r \<longleftrightarrow> r = [] \<or> \<not> is_digit (hd r)"

section \<open>The two tables\<close>

lemma in_record_keys: "k \<in> record_keys st \<longleftrightarrow> map_of (sessions st) k \<noteq> None"
  by (simp add: record_keys_def map_of_eq_None_iff)

lemma in_timer_keys: "k \<in> timer_keys st \<longleftrightarrow> map_of (session_timers st) k \<noteq> None"
  by (simp add: timer_keys_def map_of_eq_None_iff)

lemma getSession_sessions_other:
  "k \<noteq> i \<Longrightarrow> map_of (sessions (snd (getSession P now k st))) i = map_of (sessions st) i"
  by (simp add: getSession_def Let_def split: option.splits sum.splits bool.splits)

lemma getSession_timers_other:
  "k \<noteq> i \<Longrightarrow>
   map_of (session_timers (snd (getSession P now k st))) i = map_of (session_timers st) i"
  by (simp add: getSession_def Let_def AList.update_conv' split: option.splits sum.splits bool.splits)

lemma getSession_options:
  "options_timeout (snd (getSession P now k st)) = options_timeout st"
  "session_timeout_checker (snd (getSession P now k st)) = session_timeout_checker st"
  by (simp_all add: getSession_def Let_def split: option.splits sum.splits bool.splits)

lemma getSession_distinct:
  "distinct (map fst (session_timers st)) \<Longrightarrow>
   distinct (map fst (session_timers (snd (getSession P now k st))))"
  by (simp add: getSession_def Let_def AList.distinct_update AList.distinct_delete
      split: option.splits sum.splits bool.splits)

lemma getSession_distinct_sessions:
  "distinct (map fst (sessions st)) \<Longrightarrow>
   distinct (map fst (sessions (snd (getSession P now k st))))"
  by (simp add: getSession_def Let_def AList.distinct_update AList.distinct_delete
      split: option.splits sum.splits bool.splits)


lemma keys_eq_dom:
  "timer_keys st = record_keys st \<longleftrightarrow>
   dom (map_of (session_timers st)) = dom (map_of (sessions st))"
  by (simp add: timer_keys_def record_keys_def dom_map_of_conv_image_fst)

lemma getSession_keys:
  "timer_keys st = record_keys st \<Longrightarrow>
   timer_keys (snd (getSession P now k st)) = record_keys (snd (getSession P now k st))"
  unfolding keys_eq_dom
  by (auto simp: getSession_def Let_def AList.update_conv' AList.delete_conv'
      split: option.splits sum.splits bool.splits)

lemma all_loop_keys:
  "timer_keys st = record_keys st \<Longrightarrow>
   timer_keys (snd (all_loop P now ks acc st)) = record_keys (snd (all_loop P now ks acc st))"
proof (induction ks arbitrary: acc st)
  case Nil
  then show ?case by simp
next
  case (Cons k ks)
  obtain r st1 where g: "getSession P now k st = (r, st1)"
    by (cases "getSession P now k st")
  have inv: "timer_keys st1 = record_keys st1"
    using getSession_keys [OF Cons.prems, of P now k] g by simp
  show ?case
  proof (cases r)
    case (Inl e)
    with g inv show ?thesis by simp
  next
    case (Inr v)
    with g Cons.IH [OF inv] show ?thesis by simp
  qed
qed

lemma destroy_keys:
  "timer_keys st = record_keys st \<Longrightarrow>
   timer_keys (MemoryStore_destroy k st) = record_keys (MemoryStore_destroy k st)"
  unfolding keys_eq_dom by (simp add: MemoryStore_destroy_def AList.delete_conv')

lemma sweep_key_keys:
  "timer_keys st = record_keys st \<Longrightarrow>
   timer_keys (sweep_key k st) = record_keys (sweep_key k st)"
  unfolding keys_eq_dom
  by (auto simp: sweep_key_def MemoryStore_destroy_def AList.delete_conv' AList.update_conv'
      split: option.splits)

lemma fold_sweep_key_keys:
  "timer_keys st = record_keys st \<Longrightarrow>
   timer_keys (fold sweep_key ks st) = record_keys (fold sweep_key ks st)"
  by (induction ks arbitrary: st) (simp_all add: sweep_key_keys)

lemma interval_elapsed_keys:
  "timer_keys st = record_keys st \<Longrightarrow>
   timer_keys (interval_elapsed st) = record_keys (interval_elapsed st)"
  by (simp add: interval_elapsed_def session_timeout_check_def fold_sweep_key_keys)

lemma set_keys:
  "timer_keys st = record_keys st \<Longrightarrow>
   \<not> (map_of (sessions st) k = None \<and> isl (JSON_stringify P v)) \<Longrightarrow>
   timer_keys (snd (MemoryStore_set P k v st)) = record_keys (snd (MemoryStore_set P k v st))"
  unfolding keys_eq_dom
  by (auto simp: MemoryStore_set_def Let_def AList.update_conv'
      split: option.splits sum.splits)

lemma getSession_found_present:
  "getSession P now k st = (Inr v, st1) \<Longrightarrow> truthy v \<Longrightarrow> map_of (sessions st1) k \<noteq> None"
  by (auto simp: getSession_def Let_def split: option.splits sum.splits bool.splits if_splits)

lemma touch_keys:
  "timer_keys st = record_keys st \<Longrightarrow>
   timer_keys (snd (MemoryStore_touch P now k v st))
     = record_keys (snd (MemoryStore_touch P now k v st))"
proof -
  assume a: "timer_keys st = record_keys st"
  obtain r st1 where g: "getSession P now k st = (r, st1)"
    by (cases "getSession P now k st")
  have inv: "dom (map_of (session_timers st1)) = dom (map_of (sessions st1))"
    using getSession_keys [OF a, of P now k] g by (simp add: keys_eq_dom)
  show ?thesis
  proof (cases r)
    case (Inl e)
    with g inv show ?thesis by (simp add: MemoryStore_touch_def keys_eq_dom)
  next
    case (Inr cur)
    show ?thesis
    proof (cases "truthy cur")
      case True
      with g Inr have "map_of (sessions st1) k \<noteq> None"
        using getSession_found_present by blast
      then have "insert k (dom (map_of (sessions st1))) = dom (map_of (sessions st1))"
        by auto
      with g Inr True inv show ?thesis
        by (simp add: MemoryStore_touch_def keys_eq_dom AList.update_conv'
            split: sum.splits)
    next
      case False
      with g Inr inv show ?thesis by (simp add: MemoryStore_touch_def keys_eq_dom)
    qed
  qed
qed

lemma length_state: "snd (MemoryStore_length P now st) = snd (MemoryStore_all P now st)"
  by (simp add: MemoryStore_length_def split: prod.splits sum.splits)

lemma after_keys:
  assumes "timer_keys st = record_keys st"
    and "\<And>k v. op = Op_set k v \<Longrightarrow> \<not> (map_of (sessions st) k = None \<and> isl (JSON_stringify P v))"
  shows "timer_keys (after P (now, op) st) = record_keys (after P (now, op) st)"
proof (cases op)
  case (Op_get k)
  with assms(1) show ?thesis by (simp add: MemoryStore_get_def getSession_keys)
next
  case (Op_set k v)
  with assms show ?thesis by (simp add: set_keys)
next
  case (Op_touch k v)
  with assms(1) show ?thesis by (simp add: touch_keys)
next
  case (Op_destroy k)
  with assms(1) show ?thesis by (simp add: destroy_keys)
next
  case Op_all
  with assms(1) show ?thesis by (simp add: MemoryStore_all_def all_loop_keys)
next
  case Op_clear
  then show ?thesis by (simp add: MemoryStore_clear_def timer_keys_def record_keys_def)
next
  case Op_length
  with assms(1) show ?thesis by (simp add: length_state MemoryStore_all_def all_loop_keys)
next
  case Op_sweep
  with assms(1) show ?thesis by (simp add: interval_elapsed_keys)
qed

text \<open>What every operation keeps.\<close>

lemma configured_getSession:
  "configured t st \<Longrightarrow> configured t (snd (getSession P now k st))"
  by (simp add: configured_def getSession_options getSession_distinct
      getSession_distinct_sessions)

lemma configured_all_loop:
  "configured t st \<Longrightarrow> configured t (snd (all_loop P now ks acc st))"
proof (induction ks arbitrary: acc st)
  case Nil
  then show ?case by simp
next
  case (Cons k ks)
  obtain r st1 where g: "getSession P now k st = (r, st1)"
    by (cases "getSession P now k st")
  have c: "configured t st1"
    using configured_getSession [OF Cons.prems, of P now k] g by simp
  show ?case
  proof (cases r)
    case (Inl e)
    with g c show ?thesis by simp
  next
    case (Inr v)
    with g Cons.IH [OF c] show ?thesis by simp
  qed
qed

lemma configured_destroy: "configured t st \<Longrightarrow> configured t (MemoryStore_destroy k st)"
  by (simp add: configured_def MemoryStore_destroy_def AList.distinct_delete)

lemma configured_sweep_key: "configured t st \<Longrightarrow> configured t (sweep_key k st)"
  by (auto simp: configured_def sweep_key_def MemoryStore_destroy_def AList.distinct_delete
      AList.distinct_update split: option.splits)

lemma configured_fold_sweep_key: "configured t st \<Longrightarrow> configured t (fold sweep_key ks st)"
  by (induction ks arbitrary: st) (simp_all add: configured_sweep_key)

lemma configured_interval_elapsed: "configured t st \<Longrightarrow> configured t (interval_elapsed st)"
  by (simp add: interval_elapsed_def session_timeout_check_def configured_fold_sweep_key)

lemma configured_set: "configured t st \<Longrightarrow> configured t (snd (MemoryStore_set P k v st))"
  by (auto simp: configured_def MemoryStore_set_def Let_def AList.distinct_update
      split: option.splits sum.splits)

lemma configured_touch:
  "configured t st \<Longrightarrow> configured t (snd (MemoryStore_touch P now k v st))"
proof -
  assume a: "configured t st"
  obtain r st1 where g: "getSession P now k st = (r, st1)"
    by (cases "getSession P now k st")
  have c: "configured t st1"
    using configured_getSession [OF a, of P now k] g by simp
  then show ?thesis using g
    by (auto simp: MemoryStore_touch_def configured_def AList.distinct_update
        split: sum.splits)
qed

lemma configured_after: "configured t st \<Longrightarrow> configured t (after P c st)"
proof -
  assume a: "configured t st"
  obtain now op where c: "c = (now, op)" by (cases c)
  show ?thesis
  proof (cases op)
    case (Op_get k)
    with a c show ?thesis by (simp add: MemoryStore_get_def configured_getSession)
  next
    case (Op_set k v)
    with a c show ?thesis by (simp add: configured_set)
  next
    case (Op_touch k v)
    with a c show ?thesis by (simp add: configured_touch)
  next
    case (Op_destroy k)
    with a c show ?thesis by (simp add: configured_destroy)
  next
    case Op_all
    with a c show ?thesis by (simp add: MemoryStore_all_def configured_all_loop)
  next
    case Op_clear
    with a c show ?thesis by (simp add: MemoryStore_clear_def configured_def)
  next
    case Op_length
    with a c show ?thesis by (simp add: length_state MemoryStore_all_def configured_all_loop)
  next
    case Op_sweep
    with a c show ?thesis by (simp add: configured_interval_elapsed)
  qed
qed

lemma configured_run: "configured t st \<Longrightarrow> configured t (run P ops st)"
  unfolding run_def by (induction ops arbitrary: st) (simp_all add: configured_after)

lemma configured_MemoryStore:
  "configured (case options of None \<Rightarrow> - 1 | Some v \<Rightarrow> v) (MemoryStore options)"
  by (simp add: configured_def MemoryStore_def Let_def)

lemma configured_reachable:
  "configured (case options of None \<Rightarrow> - 1 | Some v \<Rightarrow> v) (run P ops (MemoryStore options))"
  by (rule configured_run [OF configured_MemoryStore])

text \<open>One sweep cycle, key by key.\<close>

lemma sweep_key_timers_other:
  "k \<noteq> i \<Longrightarrow> map_of (session_timers (sweep_key k st)) i = map_of (session_timers st) i"
  by (simp add: sweep_key_def MemoryStore_destroy_def AList.update_conv'
      split: option.splits)

lemma sweep_key_sessions_other:
  "k \<noteq> i \<Longrightarrow> map_of (sessions (sweep_key k st)) i = map_of (sessions st) i"
  by (simp add: sweep_key_def MemoryStore_destroy_def split: option.splits)

lemma fold_sweep_key_other:
  "i \<notin> set ks \<Longrightarrow>
   map_of (session_timers (fold sweep_key ks st)) i = map_of (session_timers st) i
   \<and> map_of (sessions (fold sweep_key ks st)) i = map_of (sessions st) i"
  by (induction ks arbitrary: st)
    (auto simp: sweep_key_timers_other sweep_key_sessions_other)

lemma sweep_key_timers_same:
  "map_of (session_timers (sweep_key i st)) i =
     (case map_of (session_timers st) i of
        None \<Rightarrow> None
      | Some t \<Rightarrow> if t = 0 then None else Some (decrement t))"
  by (simp add: sweep_key_def MemoryStore_destroy_def AList.update_conv' AList.delete_conv'
      split: option.splits)

lemma sweep_key_sessions_same:
  "map_of (sessions (sweep_key i st)) i =
     (if map_of (session_timers st) i = Some 0 then None else map_of (sessions st) i)"
  by (simp add: sweep_key_def MemoryStore_destroy_def AList.delete_conv'
      split: option.splits)

lemma fold_sweep_key_same:
  "distinct ks \<Longrightarrow> i \<in> set ks \<Longrightarrow>
   map_of (session_timers (fold sweep_key ks st)) i =
     (case map_of (session_timers st) i of
        None \<Rightarrow> None
      | Some t \<Rightarrow> if t = 0 then None else Some (decrement t))
   \<and> map_of (sessions (fold sweep_key ks st)) i =
     (if map_of (session_timers st) i = Some 0 then None else map_of (sessions st) i)"
proof (induction ks arbitrary: st)
  case Nil
  then show ?case by simp
next
  case (Cons k ks)
  show ?case
  proof (cases "k = i")
    case True
    with Cons.prems have "i \<notin> set ks" by simp
    from fold_sweep_key_other [OF this, of "sweep_key i st"] True show ?thesis
      by (simp add: sweep_key_timers_same sweep_key_sessions_same)
  next
    case False
    with Cons.prems have "distinct ks" "i \<in> set ks" by auto
    from Cons.IH [OF this, of "sweep_key k st"] False show ?thesis
      by (simp add: sweep_key_timers_other sweep_key_sessions_other)
  qed
qed

lemma sweep_timer:
  assumes "distinct (map fst (session_timers st))"
  shows "map_of (session_timers (session_timeout_check st)) i =
     (case map_of (session_timers st) i of
        None \<Rightarrow> None
      | Some t \<Rightarrow> if t = 0 then None else Some (decrement t))"
proof (cases "i \<in> set (map fst (session_timers st))")
  case True
  from fold_sweep_key_same [OF assms True, of st] show ?thesis
    by (simp add: session_timeout_check_def)
next
  case False
  then have "map_of (session_timers st) i = None"
    by (simp add: map_of_eq_None_iff)
  with fold_sweep_key_other [OF False, of st] show ?thesis
    by (simp add: session_timeout_check_def)
qed

lemma sweep_record:
  assumes "distinct (map fst (session_timers st))"
  shows "map_of (sessions (session_timeout_check st)) i =
     (if map_of (session_timers st) i = Some 0 then None else map_of (sessions st) i)"
proof (cases "i \<in> set (map fst (session_timers st))")
  case True
  from fold_sweep_key_same [OF assms True, of st] show ?thesis
    by (simp add: session_timeout_check_def)
next
  case False
  then have "map_of (session_timers st) i = None"
    by (simp add: map_of_eq_None_iff)
  with fold_sweep_key_other [OF False, of st] show ?thesis
    by (simp add: session_timeout_check_def)
qed

lemma decrement_exact: "0 < x \<Longrightarrow> x \<le> 2 ^ 53 \<Longrightarrow> decrement x = x - 1"
  by (simp add: decrement_def round_double_def)

lemma funpow_fixed: "f x = x \<Longrightarrow> (f ^^ n) x = x"
  by (induction n) simp_all

lemma countdown:
  assumes "configured t st" "0 \<le> t"
    and "map_of (session_timers st) i = Some c" "0 \<le> c" "c \<le> 2 ^ 53"
    and "map_of (sessions st) i = Some r"
    and "int j \<le> c"
  shows "configured t ((interval_elapsed ^^ j) st)
    \<and> map_of (session_timers ((interval_elapsed ^^ j) st)) i = Some (c - int j)
    \<and> map_of (sessions ((interval_elapsed ^^ j) st)) i = Some r"
  using assms(7)
proof (induction j)
  case 0
  with assms show ?case by simp
next
  case (Suc j)
  let ?s = "(interval_elapsed ^^ j) st"
  from Suc have ih: "configured t ?s" "map_of (session_timers ?s) i = Some (c - int j)"
    "map_of (sessions ?s) i = Some r" by simp_all
  from ih(1) assms(2) have on: "session_timeout_checker ?s"
    and d: "distinct (map fst (session_timers ?s))"
    by (simp_all add: configured_def)
  from Suc.prems assms(5) have nz: "c - int j \<noteq> 0"
    and dec: "decrement (c - int j) = c - int j - 1"
    by (simp_all add: decrement_exact)
  have step: "(interval_elapsed ^^ Suc j) st = session_timeout_check ?s"
    using on by (simp add: interval_elapsed_def)
  have "configured t (session_timeout_check ?s)"
    using configured_interval_elapsed [OF ih(1)] on by (simp add: interval_elapsed_def)
  moreover have "map_of (session_timers (session_timeout_check ?s)) i = Some (c - int (Suc j))"
    using ih(2) nz dec by (simp add: sweep_timer [OF d] algebra_simps)
  moreover have "map_of (sessions (session_timeout_check ?s)) i = Some r"
    using ih(2,3) nz by (simp add: sweep_record [OF d])
  ultimately show ?case unfolding step by simp
qed

lemma evicted:
  assumes "configured t st" "0 \<le> t"
    and "map_of (session_timers st) i = Some 0"
  shows "map_of (session_timers (interval_elapsed st)) i = None
    \<and> map_of (sessions (interval_elapsed st)) i = None"
proof -
  from assms(1,2) have on: "session_timeout_checker st"
    and d: "distinct (map fst (session_timers st))"
    by (simp_all add: configured_def)
  show ?thesis using on assms(3)
    by (simp add: interval_elapsed_def sweep_timer [OF d] sweep_record [OF d])
qed

lemma set_completed:
  assumes "fst (MemoryStore_set P i r st) = Inr ()" "map_of (sessions st) i = None"
  shows "map_of (session_timers (snd (MemoryStore_set P i r st))) i = Some (options_timeout st)"
    and "\<exists>s. map_of (sessions (snd (MemoryStore_set P i r st))) i = Some s"
  using assms
  by (auto simp: MemoryStore_set_def Let_def AList.update_conv' split: sum.splits)

lemma sweep_disabled:
  "\<not> session_timeout_checker st \<Longrightarrow> (interval_elapsed ^^ n) st = st"
  by (induction n) (simp_all add: interval_elapsed_def)

section \<open>Reading a session\<close>

lemma getSession_decoded:
  "getSession P now i st =
     (case decoded P st i of
        None \<Rightarrow> (Inr JUndefined, st)
      | Some d \<Rightarrow>
          let st1 = st\<lparr>session_timers := AList.update i (options_timeout st) (session_timers st)\<rparr>
          in (case d of
                Inl e \<Rightarrow> (Inl e, st1)
              | Inr sess \<Rightarrow>
                  (case session_expired P now sess of
                     Inl e \<Rightarrow> (Inl e, st1)
                   | Inr True \<Rightarrow>
                       (Inr JUndefined,
                        st1\<lparr>sessions := AList.delete i (sessions st1),
                            session_timers := AList.delete i (session_timers st1)\<rparr>)
                   | Inr False \<Rightarrow> (Inr sess, st1))))"
  by (simp add: getSession_def decoded_def stored_def Let_def split: option.splits)

lemma getSession_found:
  assumes "decoded P st i = Some (Inr sess)" "session_expired P now sess = Inr False"
  shows "getSession P now i st =
    (Inr sess, st\<lparr>session_timers := AList.update i (options_timeout st) (session_timers st)\<rparr>)"
  using assms by (simp add: getSession_decoded)

lemma getSession_evicts:
  assumes "decoded P st i = Some (Inr sess)" "session_expired P now sess = Inr True"
  shows "fst (getSession P now i st) = Inr JUndefined"
    and "map_of (sessions (snd (getSession P now i st))) i = None"
    and "map_of (session_timers (snd (getSession P now i st))) i = None"
  using assms by (simp_all add: getSession_decoded AList.delete_conv')

lemma getSession_absent:
  assumes "decoded P st i = None"
  shows "getSession P now i st = (Inr JUndefined, st)"
  using assms by (simp add: getSession_decoded)

lemma getSession_throws:
  assumes "decoded P st i = Some d"
    and "d = Inl e \<or> (\<exists>sess. d = Inr sess \<and> session_expired P now sess = Inl e)"
  shows "fst (getSession P now i st) = Inl e"
  using assms by (auto simp: getSession_decoded)

lemma getSession_result:
  "fst (getSession P now i st) = Inr v \<Longrightarrow> truthy v \<Longrightarrow>
   decoded P st i = Some (Inr v) \<and> session_expired P now v = Inr False"
  by (auto simp: getSession_decoded Let_def split: option.splits sum.splits bool.splits)

lemma session_expired_object:
  "session_expired P now v = Inr b \<Longrightarrow> \<exists>kvs. v = JObj kvs"
  by (cases v) (simp_all add: session_expired_def cookie_expires_def)

lemma expired_timestamp:
  "expired P now (JNum t) = Inr (t \<noteq> 0 \<and> t \<le> now)"
  "expired P now (JStr d) = Inr (case Date_parse P d of None \<Rightarrow> False | Some t \<Rightarrow> t \<le> now)"
  "expired P now JUndefined = Inr False"
  "expired P now JNull = Inr False"
  "expired P now (JBool False) = Inr False"
  by (simp_all add: expired_def)

lemma lacks_cookie_throws: "lacks_cookie v \<Longrightarrow> session_expired P now v = Inl TypeError"
  by (cases v) (simp_all add: lacks_cookie_def session_expired_def cookie_expires_def)

lemma decoded_other:
  "k \<noteq> i \<Longrightarrow> decoded P (snd (getSession P now k st)) i = decoded P st i"
  by (simp add: decoded_def stored_def getSession_sessions_other)

lemma decoded_in_keys: "decoded P st i = Some d \<Longrightarrow> i \<in> set (map fst (sessions st))"
  by (auto simp: decoded_def stored_def split: option.splits if_splits dest: map_of_SomeD
      intro: rev_image_eqI)

lemma getSession_gone:
  assumes "map_of (sessions st) i = None" "map_of (session_timers st) i = None"
  shows "map_of (sessions (snd (getSession P now k st))) i = None
    \<and> map_of (session_timers (snd (getSession P now k st))) i = None"
proof (cases "k = i")
  case True
  from assms(1) have "decoded P st i = None" by (simp add: decoded_def stored_def)
  with True assms show ?thesis by (simp add: getSession_absent)
next
  case False
  with assms show ?thesis by (simp add: getSession_sessions_other getSession_timers_other)
qed

lemma getSession_gone_result:
  assumes "map_of (sessions st) i = None"
  shows "fst (getSession P now i st) = Inr JUndefined"
proof -
  from assms have "decoded P st i = None" by (simp add: decoded_def stored_def)
  then show ?thesis by (simp add: getSession_absent)
qed

lemma all_loop_gone:
  assumes "map_of (sessions st) i = None" "map_of (session_timers st) i = None"
    and "map_of acc i = None"
    and "all_loop P now ks acc st = (Inr found, st')"
  shows "map_of found i = None \<and> map_of (sessions st') i = None
    \<and> map_of (session_timers st') i = None"
  using assms
proof (induction ks arbitrary: acc st)
  case Nil
  then show ?case by simp
next
  case (Cons k ks)
  obtain r st1 where g: "getSession P now k st = (r, st1)"
    by (cases "getSession P now k st")
  from getSession_gone [OF Cons.prems(1,2), of P now k] g
  have gone: "map_of (sessions st1) i = None" "map_of (session_timers st1) i = None"
    by simp_all
  from Cons.prems(4) g obtain v where r: "r = Inr v"
    by (cases r) simp_all
  let ?acc = "if truthy v then AList.update k v acc else acc"
  have acc: "map_of ?acc i = None"
  proof (cases "k = i")
    case True
    with getSession_gone_result [OF Cons.prems(1), of P now] g r have "v = JUndefined"
      by simp
    with Cons.prems(3) show ?thesis by simp
  next
    case False
    with Cons.prems(3) show ?thesis by (simp add: AList.update_conv')
  qed
  from Cons.prems(4) g r have "all_loop P now ks ?acc st1 = (Inr found, st')"
    by simp
  from Cons.IH [OF gone acc this] show ?case .
qed

lemma all_loop_expired:
  assumes "decoded P st i = Some (Inr sess)" "session_expired P now sess = Inr True"
    and "map_of acc i = None" "i \<in> set ks"
    and "all_loop P now ks acc st = (Inr found, st')"
  shows "map_of found i = None \<and> map_of (sessions st') i = None
    \<and> map_of (session_timers st') i = None"
  using assms
proof (induction ks arbitrary: acc st)
  case Nil
  then show ?case by simp
next
  case (Cons k ks)
  obtain r st1 where g: "getSession P now k st = (r, st1)"
    by (cases "getSession P now k st")
  from Cons.prems(5) g obtain v where r: "r = Inr v"
    by (cases r) simp_all
  let ?acc = "if truthy v then AList.update k v acc else acc"
  from Cons.prems(5) g r have rest: "all_loop P now ks ?acc st1 = (Inr found, st')"
    by simp
  show ?case
  proof (cases "k = i")
    case True
    from getSession_evicts [OF Cons.prems(1,2)] g r True
    have "v = JUndefined" "map_of (sessions st1) i = None"
      "map_of (session_timers st1) i = None"
      by simp_all
    with all_loop_gone [OF this(2,3) _ rest] Cons.prems(3) show ?thesis by simp
  next
    case False
    with Cons.prems(1) g have d: "decoded P st1 i = Some (Inr sess)"
      using decoded_other [of k i P now st] by simp
    from False Cons.prems(3) have acc: "map_of ?acc i = None"
      by (simp add: AList.update_conv')
    from False Cons.prems(4) have "i \<in> set ks" by simp
    from Cons.IH [OF d Cons.prems(2) acc this rest] show ?thesis .
  qed
qed

lemma past_timestamp_expired:
  assumes "cookie_expires sess = Inr e"
    and "e = JNum t \<and> t \<noteq> 0 \<or> (\<exists>d. e = JStr d \<and> Date_parse P d = Some t)"
    and "t \<le> now"
  shows "session_expired P now sess = Inr True"
  using assms by (auto simp: session_expired_def expired_timestamp)

lemma all_loop_throws:
  assumes "decoded P st i = Some d"
    and "(\<exists>e. d = Inl e) \<or> (\<exists>v. d = Inr v \<and> lacks_cookie v)"
    and "i \<in> set ks"
  shows "\<exists>e. fst (all_loop P now ks acc st) = Inl e"
  using assms(1,3)
proof (induction ks arbitrary: acc st)
  case Nil
  then show ?case by simp
next
  case (Cons k ks)
  obtain r st1 where g: "getSession P now k st = (r, st1)"
    by (cases "getSession P now k st")
  show ?case
  proof (cases r)
    case (Inl e)
    with g show ?thesis by simp
  next
    case (Inr v)
    have "k \<noteq> i"
    proof
      assume "k = i"
      from assms(2) obtain e where
        "d = Inl e \<or> (\<exists>sess. d = Inr sess \<and> session_expired P now sess = Inl e)"
        using lacks_cookie_throws by blast
      from getSession_throws [OF Cons.prems(1) this] g Inr \<open>k = i\<close> show False by simp
    qed
    with Cons.prems(1) g have d: "decoded P st1 i = Some d"
      using decoded_other [of k i P now st] by simp
    from \<open>k \<noteq> i\<close> Cons.prems(2) have "i \<in> set ks" by simp
    from Cons.IH [OF d this] g Inr show ?thesis by simp
  qed
qed

lemma set_prop_fields:
  "get_prop (set_prop (JObj kvs) k x) k = Inr x"
  "k' \<noteq> k \<Longrightarrow> get_prop (set_prop (JObj kvs) k x) k' = get_prop (JObj kvs) k'"
  by (simp_all add: AList.update_conv')

lemma getSession_found_timer:
  assumes "fst (getSession P now i st) = Inr v" "truthy v"
  shows "map_of (session_timers (snd (getSession P now i st))) i = Some (options_timeout st)"
proof -
  from getSession_result [OF assms]
  have "decoded P st i = Some (Inr v)" "session_expired P now v = Inr False"
    by simp_all
  from getSession_found [OF this] show ?thesis
    by (simp add: AList.update_conv')
qed

lemma touch_timers:
  "session_timers (snd (MemoryStore_touch P now i r2 st))
     = session_timers (snd (getSession P now i st))"
  by (cases "getSession P now i st")
    (simp add: MemoryStore_touch_def split: sum.splits)

lemma all_loop_timers:
  assumes "distinct ks"
    and "\<forall>k. map_of acc k \<noteq> None \<longrightarrow>
           k \<notin> set ks \<and> map_of (session_timers st) k = Some (options_timeout st)"
    and "all_loop P now ks acc st = (Inr found, st')"
  shows "\<forall>k. map_of found k \<noteq> None \<longrightarrow>
           map_of (session_timers st') k = Some (options_timeout st)"
  using assms
proof (induction ks arbitrary: acc st)
  case Nil
  then show ?case by simp
next
  case (Cons k ks)
  obtain r st1 where g: "getSession P now k st = (r, st1)"
    by (cases "getSession P now k st")
  from Cons.prems(3) g obtain v where r: "r = Inr v"
    by (cases r) simp_all
  let ?acc = "if truthy v then AList.update k v acc else acc"
  from Cons.prems(3) g r have rest: "all_loop P now ks ?acc st1 = (Inr found, st')"
    by simp
  from getSession_options(1) [of P now k st] g
  have t: "options_timeout st1 = options_timeout st" by simp
  from Cons.prems(1) have d: "distinct ks" and fresh: "k \<notin> set ks" by simp_all
  have inv: "\<forall>j. map_of ?acc j \<noteq> None \<longrightarrow>
      j \<notin> set ks \<and> map_of (session_timers st1) j = Some (options_timeout st1)"
  proof (intro allI impI)
    fix j assume j: "map_of ?acc j \<noteq> None"
    show "j \<notin> set ks \<and> map_of (session_timers st1) j = Some (options_timeout st1)"
    proof (cases "j = k")
      case True
      with j Cons.prems(2) have "truthy v"
        by (cases "truthy v") auto
      with getSession_found_timer [of P now k st v] g r True fresh t show ?thesis
        by simp
    next
      case False
      with j have "map_of acc j \<noteq> None"
        by (simp add: AList.update_conv' split: if_splits)
      with Cons.prems(2) have "j \<notin> set ks"
        "map_of (session_timers st) j = Some (options_timeout st)"
        by auto
      with getSession_timers_other [of k j P now st] False g t show ?thesis
        by simp
    qed
  qed
  from Cons.IH [OF d inv rest] t show ?case by simp
qed

lemma run_keys:
  assumes "timer_keys st = record_keys st"
    and "\<And>now k v. (now, Op_set k v) \<in> set ops \<Longrightarrow> \<not> isl (JSON_stringify P v)"
  shows "timer_keys (run P ops st) = record_keys (run P ops st)"
  using assms unfolding run_def
proof (induction ops arbitrary: st)
  case Nil
  then show ?case by simp
next
  case (Cons c ops)
  obtain now op where c: "c = (now, op)" by (cases c)
  have "timer_keys (after P (now, op) st) = record_keys (after P (now, op) st)"
    using Cons.prems(1)
  proof (rule after_keys)
    fix k v assume "op = Op_set k v"
    with Cons.prems(2) [of now k v] c
    show "\<not> (map_of (sessions st) k = None \<and> isl (JSON_stringify P v))" by simp
  qed
  then have step: "timer_keys (after P c st) = record_keys (after P c st)"
    by (simp add: c)
  have rest: "\<not> isl (JSON_stringify P v)" if "(now, Op_set k v) \<in> set ops" for now k v
    using that Cons.prems(2) [of now k v] by simp
  from Cons.IH [OF step rest] show ?case by simp
qed

section \<open>The codec loses nothing on the supported values\<close>

lemma digit_char:
  assumes "d < 10"
  shows "is_digit (''0123456789'' ! d)" "digit_val (''0123456789'' ! d) = d"
    "''0123456789'' ! d = CHR ''0'' \<longleftrightarrow> d = 0"
proof -
  from assms have "d = 0 \<or> d = 1 \<or> d = 2 \<or> d = 3 \<or> d = 4 \<or> d = 5 \<or> d = 6 \<or> d = 7
    \<or> d = 8 \<or> d = 9" by arith
  then show "is_digit (''0123456789'' ! d)" "digit_val (''0123456789'' ! d) = d"
    "''0123456789'' ! d = CHR ''0'' \<longleftrightarrow> d = 0"
    by (auto simp: is_digit_def digit_val_def)
qed

lemma digits_text_digits: "list_all is_digit (digits_text n) \<and> digits_text n \<noteq> []"
proof (induction n rule: digits_text.induct)
  case (1 n)
  show ?case
  proof (cases "n < 10")
    case True
    then show ?thesis by (simp add: digits_text.simps [of n] digit_char)
  next
    case False
    with 1 show ?thesis by (simp add: digits_text.simps [of n] digit_char)
  qed
qed

lemma digits_text_value: "foldl (\<lambda>a c. 10 * a + digit_val c) 0 (digits_text n) = n"
proof (induction n rule: digits_text.induct)
  case (1 n)
  show ?case
  proof (cases "n < 10")
    case True
    then show ?thesis by (simp add: digits_text.simps [of n] digit_char)
  next
    case False
    with 1 show ?thesis by (simp add: digits_text.simps [of n] digit_char)
  qed
qed

lemma digits_text_hd: "hd (digits_text n) = CHR ''0'' \<longleftrightarrow> n = 0"
proof (induction n rule: digits_text.induct)
  case (1 n)
  show ?case
  proof (cases "n < 10")
    case True
    then show ?thesis by (simp add: digits_text.simps [of n] digit_char)
  next
    case False
    with 1 digits_text_digits [of "n div 10"] show ?thesis
      by (simp add: digits_text.simps [of n])
  qed
qed

lemma scan_digits_text:
  assumes "delim r"
  shows "scan_digits (digits_text n @ r) = Some (n, r)"
proof -
  let ?ds = "digits_text n"
  from digits_text_digits [of n] have all: "\<And>x. x \<in> set ?ds \<Longrightarrow> is_digit x" and ne: "?ds \<noteq> []"
    by (simp_all add: list_all_iff)
  from assms have r: "takeWhile is_digit r = []" "dropWhile is_digit r = r"
    by (cases r; simp add: delim_def)+
  from all r have t: "takeWhile is_digit (?ds @ r) = ?ds"
    by (simp add: takeWhile_append2)
  from all r have d: "dropWhile is_digit (?ds @ r) = r"
    by (simp add: dropWhile_append2)
  have z: "\<not> (hd ?ds = CHR ''0'' \<and> 1 < length ?ds)"
  proof
    assume a: "hd ?ds = CHR ''0'' \<and> 1 < length ?ds"
    then have "n = 0" by (simp add: digits_text_hd)
    with a show False by (simp add: digits_text.simps [of 0])
  qed
  show ?thesis
    unfolding scan_digits_def t d Let_def using ne z by (simp add: digits_text_value)
qed

lemma scan_string_text:
  "scan_string
     (concat (map (\<lambda>c. if c = quote \<or> c = backslash then [backslash, c] else [c]) s)
        @ quote # r) = Some (s, r)"
  by (induction s) (auto simp: quote_def backslash_def)

lemma scan_value_digit:
  assumes "is_digit c"
  shows "scan_value (Suc n) (c # s)
    = map_option (\<lambda>(m, r). (JNum (int m), r)) (scan_digits (c # s))"
proof -
  from assms have "c = CHR ''0'' \<or> c = CHR ''1'' \<or> c = CHR ''2'' \<or> c = CHR ''3''
    \<or> c = CHR ''4'' \<or> c = CHR ''5'' \<or> c = CHR ''6'' \<or> c = CHR ''7'' \<or> c = CHR ''8''
    \<or> c = CHR ''9''"
    by (auto simp: is_digit_def)
  then show ?thesis by (elim disjE) (simp_all add: quote_def)
qed

lemma scan_value_minus:
  "scan_value (Suc n) (CHR ''-'' # s)
    = map_option (\<lambda>(m, r). (JNum (- int m), r)) (scan_digits s)"
  by (simp add: quote_def)

lemma scan_value_quote:
  "scan_value (Suc n) (quote # s) = map_option (\<lambda>(t, r). (JStr t, r)) (scan_string s)"
  by (simp add: quote_def)

lemma scan_value_bracket:
  "scan_value (Suc n) (CHR ''['' # s)
    = (if take 1 s = '']'' then Some (JArr [], drop 1 s)
       else map_option (\<lambda>(xs, r). (JArr xs, r)) (scan_elems n s))"
  by (simp add: quote_def)

lemma scan_value_brace:
  "scan_value (Suc n) (CHR ''{'' # s)
    = (if take 1 s = ''}'' then Some (JObj [], drop 1 s)
       else map_option
         (\<lambda>(kvs, r). (JObj (foldl (\<lambda>al (k, v). AList.update k v al) [] kvs), r))
         (scan_members n s))"
  by (simp add: quote_def)

lemma scan_value_words:
  "scan_value (Suc n) (''null'' @ r) = Some (JNull, r)"
  "scan_value (Suc n) (''true'' @ r) = Some (JBool True, r)"
  "scan_value (Suc n) (''false'' @ r) = Some (JBool False, r)"
  by simp_all

lemma update_fresh: "k \<notin> fst ` set al \<Longrightarrow> AList.update k v al = al @ [(k, v)]"
  by (induction al) auto

lemma foldl_update_distinct:
  "distinct (map fst kvs) \<Longrightarrow> fst ` set acc \<inter> fst ` set kvs = {} \<Longrightarrow>
   foldl (\<lambda>al (k, v). AList.update k v al) acc kvs = acc @ kvs"
proof (induction kvs arbitrary: acc)
  case Nil
  then show ?case by simp
next
  case (Cons kv kvs)
  obtain k v where kv: "kv = (k, v)" by (cases kv)
  from Cons.prems kv have fresh: "k \<notin> fst ` set acc" by auto
  from Cons.prems kv have d: "distinct (map fst kvs)"
    and disj: "fst ` set (acc @ [(k, v)]) \<inter> fst ` set kvs = {}"
    by auto
  from Cons.IH [OF d disj] fresh kv show ?case
    by (simp add: update_fresh)
qed

lemma number_text_scan:
  assumes "delim r" "0 < n'"
  shows "scan_value n' (number_text n @ r) = Some (JNum n, r)"
proof -
  from assms(2) obtain m where n': "n' = Suc m" by (cases n') simp_all
  show ?thesis
  proof (cases "n < 0")
    case True
    with scan_digits_text [OF assms(1), of "nat (- n)"] show ?thesis
      unfolding n' number_text_def by (simp add: scan_value_minus del: scan_value.simps)
  next
    case False
    from digits_text_digits [of "nat n"] obtain c cs where
      ds: "digits_text (nat n) = c # cs" and c: "is_digit c"
      by (cases "digits_text (nat n)") simp_all
    from scan_digits_text [OF assms(1), of "nat n"] ds
    have "scan_digits (c # cs @ r) = Some (nat n, r)" by simp
    with False ds c show ?thesis
      unfolding n' number_text_def by (simp add: scan_value_digit del: scan_value.simps)
  qed
qed

lemma string_text_scan:
  assumes "0 < n'"
  shows "scan_value n' (string_text s @ r) = Some (JStr s, r)"
proof -
  from assms obtain m where n': "n' = Suc m" by (cases n') simp_all
  show ?thesis
    unfolding n' string_text_def
    by (simp add: scan_value_quote scan_string_text del: scan_value.simps)
qed

lemma ser_head:
  assumes "ser v = Inr (Some t)"
  shows "t \<noteq> [] \<and> hd t \<noteq> CHR '']''"
proof (cases v)
  case (JNum n)
  from digits_text_digits [of "nat n"] obtain c cs where
    "digits_text (nat n) = c # cs" "is_digit c"
    by (cases "digits_text (nat n)") simp_all
  then have "c \<noteq> CHR '']''" "digits_text (nat n) = c # cs"
    by (auto simp: is_digit_def)
  with assms JNum show ?thesis
    by (cases "n < 0") (auto simp: number_text_def)
qed (use assms in \<open>auto simp: string_text_def quote_def split: sum.splits if_splits\<close>)

lemma join_Cons: "ts \<noteq> [] \<Longrightarrow> join (t # ts) = t @ '','' @ join ts"
  by (cases ts) simp_all

lemma codec_round_trip:
  "supported v \<longrightarrow>
     (\<exists>t. ser v = Inr (Some t)
        \<and> (\<forall>n r. length t < n \<longrightarrow> delim r \<longrightarrow> scan_value n (t @ r) = Some (v, r)))"
  "supported_elems xs \<longrightarrow>
     (\<exists>ts. ser_elems xs = Inr ts \<and> length ts = length xs
        \<and> (\<forall>t \<in> set ts. t \<noteq> [] \<and> hd t \<noteq> CHR '']'')
        \<and> (xs \<noteq> [] \<longrightarrow>
             (\<forall>n r. length (join ts) + 1 < n \<longrightarrow>
                scan_elems n (join ts @ CHR '']'' # r) = Some (xs, r))))"
  "supported_members kvs \<longrightarrow>
     (\<exists>ts. ser_members kvs = Inr ts \<and> length ts = length kvs
        \<and> (\<forall>t \<in> set ts. \<exists>cs. t = quote # cs)
        \<and> (kvs \<noteq> [] \<longrightarrow>
             (\<forall>n r. length (join ts) + 1 < n \<longrightarrow>
                scan_members n (join ts @ CHR ''}'' # r) = Some (kvs, r))))"
proof (induction v and xs and kvs rule: ser_ser_elems_ser_members.induct)
  case 1
  show ?case by simp
next
  case 2
  show ?case
  proof (intro impI exI conjI allI)
    show "ser JNull = Inr (Some ''null'')" by simp
    fix n :: nat and r assume "length ''null'' < n"
    then obtain m where "n = Suc m" by (cases n) simp_all
    then show "scan_value n (''null'' @ r) = Some (JNull, r)"
      by (simp only: scan_value_words)
  qed
next
  case (3 b)
  show ?case
  proof (intro impI exI conjI allI)
    show "ser (JBool b) = Inr (Some (if b then ''true'' else ''false''))" by simp
    fix n :: nat and r assume "length (if b then ''true'' else ''false'') < n"
    then obtain m where "n = Suc m" by (cases n) simp_all
    then show "scan_value n ((if b then ''true'' else ''false'') @ r) = Some (JBool b, r)"
      by (cases b) (simp_all only: scan_value_words if_True if_False)
  qed
next
  case (4 n)
  show ?case
  proof (intro impI exI conjI allI)
    show "ser (JNum n) = Inr (Some (number_text n))" by simp
    fix m :: nat and r assume "length (number_text n) < m" "delim r"
    then show "scan_value m (number_text n @ r) = Some (JNum n, r)"
      by (intro number_text_scan) simp_all
  qed
next
  case (5 n)
  show ?case by simp
next
  case (6 s)
  show ?case
  proof (intro impI exI conjI allI)
    show "ser (JStr s) = Inr (Some (string_text s))" by simp
    fix m :: nat and r assume "length (string_text s) < m"
    then show "scan_value m (string_text s @ r) = Some (JStr s, r)"
      by (intro string_text_scan) simp
  qed
next
  case (7 xs)
  show ?case
  proof
    assume "supported (JArr xs)"
    then have sup: "supported_elems xs" by simp
    with 7 obtain ts where ts: "ser_elems xs = Inr ts" "length ts = length xs"
      "\<forall>t \<in> set ts. t \<noteq> [] \<and> hd t \<noteq> CHR '']''"
      and scan: "xs \<noteq> [] \<longrightarrow> (\<forall>n r. length (join ts) + 1 < n \<longrightarrow>
                scan_elems n (join ts @ CHR '']'' # r) = Some (xs, r))"
      by blast
    let ?t = "''['' @ join ts @ '']''"
    have "scan_value n (?t @ r) = Some (JArr xs, r)" if n: "length ?t < n" for n r
    proof -
      from n obtain m where m: "n = Suc m" by (cases n) simp_all
      show ?thesis
      proof (cases xs)
        case Nil
        with ts(2) have "ts = []" by simp
        with Nil m show ?thesis by (simp add: scan_value_bracket del: scan_value.simps)
      next
        case (Cons x xs')
        with ts(2) obtain t ts' where tt: "ts = t # ts'" by (cases ts) simp_all
        with ts(3) have "t \<noteq> []" and hd: "hd t \<noteq> CHR '']''" by simp_all
        from \<open>t \<noteq> []\<close> obtain c cs where c: "t = c # cs" by (cases t) simp_all
        with hd have "c \<noteq> CHR '']''" by simp
        have "join ts = c # (cs @ (if ts' = [] then [] else '','' @ join ts'))"
          unfolding tt c by (cases ts') simp_all
        then have first: "take 1 (join ts @ CHR '']'' # r) \<noteq> '']''"
          using \<open>c \<noteq> CHR '']''\<close> by simp
        from n m have "length (join ts) + 1 < m" by simp
        with scan Cons have "scan_elems m (join ts @ CHR '']'' # r) = Some (xs, r)"
          by simp
        with first m show ?thesis
          by (simp add: scan_value_bracket del: scan_value.simps)
      qed
    qed
    with ts(1) show "\<exists>t. ser (JArr xs) = Inr (Some t)
        \<and> (\<forall>n r. length t < n \<longrightarrow> delim r \<longrightarrow> scan_value n (t @ r) = Some (JArr xs, r))"
      by (intro exI [of _ ?t]) simp
  qed
next
  case (8 kvs)
  show ?case
  proof
    assume "supported (JObj kvs)"
    then have d: "distinct (map fst kvs)" and sup: "supported_members kvs" by simp_all
    with 8 obtain ts where ts: "ser_members kvs = Inr ts" "length ts = length kvs"
      "\<forall>t \<in> set ts. \<exists>cs. t = quote # cs"
      and scan: "kvs \<noteq> [] \<longrightarrow> (\<forall>n r. length (join ts) + 1 < n \<longrightarrow>
                scan_members n (join ts @ CHR ''}'' # r) = Some (kvs, r))"
      by blast
    let ?t = "''{'' @ join ts @ ''}''"
    from foldl_update_distinct [OF d, of "[]"]
    have build: "foldl (\<lambda>al (k, v). AList.update k v al) [] kvs = kvs" by simp
    have "scan_value n (?t @ r) = Some (JObj kvs, r)" if n: "length ?t < n" for n r
    proof -
      from n obtain m where m: "n = Suc m" by (cases n) simp_all
      show ?thesis
      proof (cases kvs)
        case Nil
        with ts(2) have "ts = []" by simp
        with Nil m show ?thesis by (simp add: scan_value_brace del: scan_value.simps)
      next
        case (Cons kv kvs')
        obtain k v where kv: "kv = (k, v)" by (cases kv)
        with ts(2) Cons obtain t ts' where tt: "ts = t # ts'" by (cases ts) simp_all
        from tt ts(3) obtain cs where c: "t = quote # cs" by auto
        have "join ts = quote # (cs @ (if ts' = [] then [] else '','' @ join ts'))"
          unfolding tt c by (cases ts') simp_all
        then have first: "take 1 (join ts @ CHR ''}'' # r) \<noteq> ''}''"
          by (simp add: quote_def)
        from n m have "length (join ts) + 1 < m" by simp
        with scan Cons have "scan_members m (join ts @ CHR ''}'' # r) = Some (kvs, r)"
          by simp
        with first m build show ?thesis
          by (simp add: scan_value_brace del: scan_value.simps)
      qed
    qed
    with ts(1) show "\<exists>t. ser (JObj kvs) = Inr (Some t)
        \<and> (\<forall>n r. length t < n \<longrightarrow> delim r \<longrightarrow> scan_value n (t @ r) = Some (JObj kvs, r))"
      by (intro exI [of _ ?t]) simp
  qed
next
  case 9
  show ?case by simp
next
  case (10 x xs)
  show ?case
  proof
    assume "supported_elems (x # xs)"
    then have sx: "supported x" and sxs: "supported_elems xs" by simp_all
    from 10(1) sx obtain t where t: "ser x = Inr (Some t)"
      and scan_x: "\<And>n r. length t < n \<Longrightarrow> delim r \<Longrightarrow> scan_value n (t @ r) = Some (x, r)"
      by blast
    from 10(2) [OF t] sxs obtain ts where ts: "ser_elems xs = Inr ts" "length ts = length xs"
      "\<forall>t \<in> set ts. t \<noteq> [] \<and> hd t \<noteq> CHR '']''"
      and scan_xs: "xs \<noteq> [] \<longrightarrow> (\<forall>n r. length (join ts) + 1 < n \<longrightarrow>
                scan_elems n (join ts @ CHR '']'' # r) = Some (xs, r))"
      by blast
    from ser_head [OF t] have tne: "t \<noteq> []" and thd: "hd t \<noteq> CHR '']''" by simp_all
    have "scan_elems n (join (t # ts) @ CHR '']'' # r) = Some (x # xs, r)"
      if n: "length (join (t # ts)) + 1 < n" for n r
    proof -
      from n obtain m where m: "n = Suc m" by (cases n) simp_all
      show ?thesis
      proof (cases xs)
        case Nil
        with ts(2) have e: "ts = []" by simp
        from n m e have "length t < m" by simp
        from scan_x [OF this, of "CHR '']'' # r"]
        have "scan_value m (t @ CHR '']'' # r) = Some (x, CHR '']'' # r)"
          by (simp add: delim_def is_digit_def)
        with Nil e m show ?thesis by simp
      next
        case (Cons y ys)
        with ts(2) have ne: "ts \<noteq> []" by auto
        from n m ne tne have lt: "length t < m" and lts: "length (join ts) + 1 < m"
          by (simp_all add: join_Cons)
        from scan_x [OF lt, of "CHR '','' # join ts @ CHR '']'' # r"]
        have a: "scan_value m (t @ CHR '','' # join ts @ CHR '']'' # r)
            = Some (x, CHR '','' # join ts @ CHR '']'' # r)"
          by (simp add: delim_def is_digit_def)
        from scan_xs Cons lts
        have b: "scan_elems m (join ts @ CHR '']'' # r) = Some (xs, r)" by simp
        from a b m ne show ?thesis by (simp add: join_Cons)
      qed
    qed
    with t ts tne thd show "\<exists>ts. ser_elems (x # xs) = Inr ts \<and> length ts = length (x # xs)
        \<and> (\<forall>t \<in> set ts. t \<noteq> [] \<and> hd t \<noteq> CHR '']'')
        \<and> (x # xs \<noteq> [] \<longrightarrow>
             (\<forall>n r. length (join ts) + 1 < n \<longrightarrow>
                scan_elems n (join ts @ CHR '']'' # r) = Some (x # xs, r)))"
      by (intro exI [of _ "t # ts"]) simp
  qed
next
  case 11
  show ?case by simp
next
  case (12 k v kvs)
  show ?case
  proof
    assume "supported_members ((k, v) # kvs)"
    then have sv: "supported v" and skvs: "supported_members kvs" by simp_all
    from 12(1) sv obtain tv where tv: "ser v = Inr (Some tv)"
      and scan_v: "\<And>n r. length tv < n \<Longrightarrow> delim r \<Longrightarrow> scan_value n (tv @ r) = Some (v, r)"
      by blast
    from 12(2) [OF tv] skvs obtain ts where ts: "ser_members kvs = Inr ts"
      "length ts = length kvs" "\<forall>t \<in> set ts. \<exists>cs. t = quote # cs"
      and scan_kvs: "kvs \<noteq> [] \<longrightarrow> (\<forall>n r. length (join ts) + 1 < n \<longrightarrow>
                scan_members n (join ts @ CHR ''}'' # r) = Some (kvs, r))"
      by blast
    let ?esc = "concat (map (\<lambda>c. if c = quote \<or> c = backslash then [backslash, c] else [c]) k)"
    let ?t = "string_text k @ '':'' @ tv"
    have t_eq: "?t = quote # ?esc @ quote # CHR '':'' # tv"
      by (simp add: string_text_def)
    have "scan_members n (join (?t # ts) @ CHR ''}'' # r) = Some ((k, v) # kvs, r)"
      if n: "length (join (?t # ts)) + 1 < n" for n r
    proof -
      from n obtain m where m: "n = Suc m" by (cases n) simp_all
      show ?thesis
      proof (cases kvs)
        case Nil
        with ts(2) have e: "ts = []" by simp
        from n m e have "length tv < m" by (simp add: t_eq)
        from scan_v [OF this, of "CHR ''}'' # r"]
        have a: "scan_value m (tv @ CHR ''}'' # r) = Some (v, CHR ''}'' # r)"
          by (simp add: delim_def is_digit_def)
        have "scan_members (Suc m) ((quote # ?esc @ quote # CHR '':'' # tv) @ CHR ''}'' # r)
          = Some ([(k, v)], r)"
          using a scan_string_text [of k "CHR '':'' # tv @ CHR ''}'' # r"]
          by (simp del: scan_value.simps)
        with Nil e m show ?thesis by (simp only: join.simps t_eq)
      next
        case (Cons y ys)
        with ts(2) have ne: "ts \<noteq> []" by auto
        from n m ne have lt: "length tv < m" and lts: "length (join ts) + 1 < m"
          by (simp_all add: join_Cons t_eq)
        from scan_v [OF lt, of "CHR '','' # join ts @ CHR ''}'' # r"]
        have a: "scan_value m (tv @ CHR '','' # join ts @ CHR ''}'' # r)
            = Some (v, CHR '','' # join ts @ CHR ''}'' # r)"
          by (simp add: delim_def is_digit_def)
        from scan_kvs Cons lts
        have b: "scan_members m (join ts @ CHR ''}'' # r) = Some (kvs, r)" by simp
        have "scan_members (Suc m)
            ((quote # ?esc @ quote # CHR '':'' # tv) @ CHR '','' # join ts @ CHR ''}'' # r)
          = Some ((k, v) # kvs, r)"
          using a b scan_string_text [of k "CHR '':'' # tv @ CHR '','' # join ts @ CHR ''}'' # r"]
          by (simp del: scan_value.simps)
        with m ne show ?thesis
          by (simp add: join_Cons string_text_def del: scan_members.simps)
      qed
    qed
    with tv ts show "\<exists>ts. ser_members ((k, v) # kvs) = Inr ts
        \<and> length ts = length ((k, v) # kvs) \<and> (\<forall>t \<in> set ts. \<exists>cs. t = quote # cs)
        \<and> ((k, v) # kvs \<noteq> [] \<longrightarrow>
             (\<forall>n r. length (join ts) + 1 < n \<longrightarrow>
                scan_members n (join ts @ CHR ''}'' # r) = Some ((k, v) # kvs, r)))"
      by (intro exI [of _ "?t # ts"]) (simp add: string_text_def)
  qed
qed

lemma supported_lossless:
  assumes "supported v"
  shows "lossless engine v"
proof -
  from codec_round_trip(1) [of v] assms obtain t where t: "ser v = Inr (Some t)"
    and scan: "\<And>n r. length t < n \<Longrightarrow> delim r \<Longrightarrow> scan_value n (t @ r) = Some (v, r)"
    by blast
  from scan [of "Suc (length t)" "[]"] have "json_parse t = Inr v"
    by (simp add: json_parse_def delim_def del: scan_value.simps)
  moreover from ser_head [OF t] have "t \<noteq> []" by simp
  ultimately show ?thesis using t by (simp add: lossless_def engine_def)
qed

section \<open>Destroying a session\<close>

text \<open>
  Claim C7. \<^verbatim>\<open>destroy\<close> never throws, destroying twice leaves the store as destroying
  once does, and destroying an id that neither table holds leaves the store as it was.
\<close>

theorem destroy_idempotent_total:
  "thrown P (now, Op_destroy i) st = None
   \<and> MemoryStore_destroy i (MemoryStore_destroy i st) = MemoryStore_destroy i st
   \<and> (i \<notin> record_keys st \<and> i \<notin> timer_keys st \<longrightarrow> MemoryStore_destroy i st = st)"
  by (simp add: MemoryStore_destroy_def AList.delete_idem record_keys_def timer_keys_def)

theorem destroy_idempotent_total_witness:
  "''a'' \<notin> record_keys (MemoryStore None) \<and> ''a'' \<notin> timer_keys (MemoryStore None)
   \<and> MemoryStore_destroy ''a'' (MemoryStore None) = MemoryStore None
   \<and> thrown engine (0, Op_destroy ''a'') (MemoryStore None) = None"
  using destroy_idempotent_total [of engine 0 "''a''" "MemoryStore None"]
  by (simp add: record_keys_def timer_keys_def MemoryStore_def)

section \<open>The sweep\<close>

text \<open>
  Claim C8. In a store constructed with a negative timeout, or with none (the default
  is \<open>-1\<close>), and used in any way since, a sweep period changes nothing however often
  it elapses: a key that has been set stays in the Record Table.
\<close>

theorem negative_timeout_never_sweeps:
  assumes "case options of None \<Rightarrow> True | Some t \<Rightarrow> t < 0"
    and "st0 = run P ops (MemoryStore options)"
    and "fst (MemoryStore_set P i r st0) = Inr ()"
    and "st1 = snd (MemoryStore_set P i r st0)"
  shows "(interval_elapsed ^^ n) st1 = st1
    \<and> i \<in> record_keys ((interval_elapsed ^^ n) st1)"
proof -
  let ?t = "case options of None \<Rightarrow> - 1 | Some v \<Rightarrow> v"
  have neg: "?t < 0" using assms(1) by (cases options) simp_all
  have "configured ?t st1"
    unfolding assms(2,4) by (rule configured_set [OF configured_reachable])
  with neg have off: "\<not> session_timeout_checker st1"
    by (simp add: configured_def)
  have "i \<in> record_keys st1"
    using assms(3) unfolding assms(4) in_record_keys
    by (auto simp: MemoryStore_set_def Let_def AList.update_conv' split: sum.splits)
  with sweep_disabled [OF off] show ?thesis by simp
qed

theorem negative_timeout_never_sweeps_witness:
  "(case Some (- 1) of None \<Rightarrow> True | Some t \<Rightarrow> t < (0::int))
   \<and> fst (MemoryStore_set engine ''a'' (JObj [(''cookie'', JObj [])])
        (run engine [] (MemoryStore (Some (- 1))))) = Inr ()
   \<and> ''a'' \<in> record_keys ((interval_elapsed ^^ 5)
        (snd (MemoryStore_set engine ''a'' (JObj [(''cookie'', JObj [])])
          (run engine [] (MemoryStore (Some (- 1)))))))"
proof -
  have h1: "case Some (- 1) of None \<Rightarrow> True | Some t \<Rightarrow> t < (0::int)" by simp
  have h2: "fst (MemoryStore_set engine ''a'' (JObj [(''cookie'', JObj [])])
        (run engine [] (MemoryStore (Some (- 1))))) = Inr ()"
    by code_simp
  from negative_timeout_never_sweeps [OF h1 refl h2 refl, of 5] h1 h2 show ?thesis
    by blast
qed

text \<open>
  Claim C2, as amended. In a store constructed with timeout \<open>N\<close>, \<open>0 \<le> N \<le> 2^53\<close>, and
  used in any way since, a key that is set while the Record Table does not hold it,
  and is left alone afterwards, is still in the Record Table after each of the first
  \<open>N\<close> sweep cycles, with \<open>N - j\<close> cycles left on its countdown after the \<open>j\<close>-th, and
  is in neither table after sweep cycle \<open>N + 1\<close>.
\<close>

theorem sweep_evicts_on_cycle_after_countdown:
  assumes "0 \<le> N" "N \<le> 2 ^ 53"
    and "st0 = run P ops (MemoryStore (Some N))"
    and "i \<notin> record_keys st0"
    and "fst (MemoryStore_set P i r st0) = Inr ()"
    and "st1 = snd (MemoryStore_set P i r st0)"
  shows "(\<forall>j \<le> nat N. i \<in> record_keys ((interval_elapsed ^^ j) st1)
            \<and> map_of (session_timers ((interval_elapsed ^^ j) st1)) i = Some (N - int j))
    \<and> i \<notin> record_keys ((interval_elapsed ^^ Suc (nat N)) st1)
    \<and> i \<notin> timer_keys ((interval_elapsed ^^ Suc (nat N)) st1)"
proof -
  have c0: "configured N st0"
    using configured_reachable [of "Some N" P ops] unfolding assms(3) by simp
  then have c1: "configured N st1"
    unfolding assms(6) by (rule configured_set)
  from assms(4) have fresh: "map_of (sessions st0) i = None"
    by (simp add: in_record_keys)
  from c0 have t0: "options_timeout st0 = N" by (simp add: configured_def)
  from set_completed(1) [OF assms(5) fresh] t0
  have timer: "map_of (session_timers st1) i = Some N"
    unfolding assms(6) by simp
  from set_completed(2) [OF assms(5) fresh]
  obtain s where rec: "map_of (sessions st1) i = Some s"
    unfolding assms(6) by blast
  have during: "i \<in> record_keys ((interval_elapsed ^^ j) st1)
      \<and> map_of (session_timers ((interval_elapsed ^^ j) st1)) i = Some (N - int j)"
    if "j \<le> nat N" for j
  proof -
    from that assms(1) have "int j \<le> N" by simp
    from countdown [OF c1 assms(1) timer assms(1,2) rec this] show ?thesis
      by (simp add: in_record_keys)
  qed
  have "int (nat N) \<le> N" using assms(1) by simp
  from countdown [OF c1 assms(1) timer assms(1,2) rec this] assms(1)
  have cN: "configured N ((interval_elapsed ^^ nat N) st1)"
    and zero: "map_of (session_timers ((interval_elapsed ^^ nat N) st1)) i = Some 0"
    by simp_all
  from evicted [OF cN assms(1) zero]
  have "i \<notin> record_keys ((interval_elapsed ^^ Suc (nat N)) st1)
    \<and> i \<notin> timer_keys ((interval_elapsed ^^ Suc (nat N)) st1)"
    by (simp add: in_record_keys in_timer_keys)
  with during show ?thesis by blast
qed

theorem sweep_evicts_on_cycle_after_countdown_witness:
  "(0::int) \<le> 2 \<and> (2::int) \<le> 2 ^ 53
   \<and> ''a'' \<notin> record_keys
        (run engine [(0, Op_set ''b'' (JObj [(''cookie'', JObj [])]))] (MemoryStore (Some 2)))
   \<and> fst (MemoryStore_set engine ''a'' (JObj [(''cookie'', JObj [])])
        (run engine [(0, Op_set ''b'' (JObj [(''cookie'', JObj [])]))] (MemoryStore (Some 2))))
      = Inr ()
   \<and> ''a'' \<in> record_keys ((interval_elapsed ^^ 2)
        (snd (MemoryStore_set engine ''a'' (JObj [(''cookie'', JObj [])])
          (run engine [(0, Op_set ''b'' (JObj [(''cookie'', JObj [])]))]
            (MemoryStore (Some 2))))))
   \<and> ''a'' \<notin> record_keys ((interval_elapsed ^^ Suc (nat 2))
        (snd (MemoryStore_set engine ''a'' (JObj [(''cookie'', JObj [])])
          (run engine [(0, Op_set ''b'' (JObj [(''cookie'', JObj [])]))]
            (MemoryStore (Some 2))))))
   \<and> fst (MemoryStore_get engine 0 ''a'' ((interval_elapsed ^^ Suc (nat 2))
        (snd (MemoryStore_set engine ''a'' (JObj [(''cookie'', JObj [])])
          (run engine [(0, Op_set ''b'' (JObj [(''cookie'', JObj [])]))]
            (MemoryStore (Some 2))))))) = Inr JUndefined"
proof -
  let ?r = "JObj [(''cookie'', JObj [])]"
  let ?st0 = "run engine [(0, Op_set ''b'' ?r)] (MemoryStore (Some 2))"
  let ?st1 = "snd (MemoryStore_set engine ''a'' ?r ?st0)"
  have h1: "(0::int) \<le> 2" by simp
  have h2: "(2::int) \<le> 2 ^ 53" by simp
  have h3: "''a'' \<notin> record_keys ?st0" by code_simp
  have h4: "fst (MemoryStore_set engine ''a'' ?r ?st0) = Inr ()" by code_simp
  have g: "fst (MemoryStore_get engine 0 ''a'' ((interval_elapsed ^^ Suc (nat 2)) ?st1))
      = Inr JUndefined"
    by code_simp
  have "(2::nat) \<le> nat 2" by simp
  with sweep_evicts_on_cycle_after_countdown [OF h1 h2 refl h3 h4 refl] h1 h2 h3 h4 g
  show ?thesis by blast
qed

text \<open>
  Claim C2 as stated fails for a large timeout: line 55 decrements a double, and
  \<open>2^54 - 1\<close> is not a double but rounds back to \<open>2^54\<close>. With timeout
  \<open>2^54 = 18014398509481984\<close> a sweep cycle leaves the store as it finds it, so the key
  is still in the Record Table after cycle \<open>N + 1\<close>, its countdown still at \<open>2^54\<close>.
\<close>

theorem countdown_of_2_54_never_ends:
  "(0::int) \<le> 18014398509481984
   \<and> ''a'' \<notin> record_keys (run engine [] (MemoryStore (Some 18014398509481984)))
   \<and> fst (MemoryStore_set engine ''a'' (JObj [(''cookie'', JObj [])])
        (run engine [] (MemoryStore (Some 18014398509481984)))) = Inr ()
   \<and> ''a'' \<in> record_keys ((interval_elapsed ^^ Suc (nat 18014398509481984))
        (snd (MemoryStore_set engine ''a'' (JObj [(''cookie'', JObj [])])
          (run engine [] (MemoryStore (Some 18014398509481984))))))
   \<and> map_of (session_timers ((interval_elapsed ^^ Suc (nat 18014398509481984))
        (snd (MemoryStore_set engine ''a'' (JObj [(''cookie'', JObj [])])
          (run engine [] (MemoryStore (Some 18014398509481984))))))) ''a''
      = Some 18014398509481984"
proof -
  let ?r = "JObj [(''cookie'', JObj [])]"
  let ?st0 = "run engine [] (MemoryStore (Some 18014398509481984))"
  let ?st1 = "snd (MemoryStore_set engine ''a'' ?r ?st0)"
  have h1: "(0::int) \<le> 18014398509481984" by simp
  have h3: "''a'' \<notin> record_keys ?st0" by code_simp
  have h4: "fst (MemoryStore_set engine ''a'' ?r ?st0) = Inr ()" by code_simp
  have fixed: "interval_elapsed ?st1 = ?st1" by code_simp
  have still: "(interval_elapsed ^^ Suc (nat 18014398509481984)) ?st1 = ?st1"
    using fixed by (rule funpow_fixed)
  have here: "''a'' \<in> record_keys ?st1" by code_simp
  have timer: "map_of (session_timers ?st1) ''a'' = Some 18014398509481984" by code_simp
  from here timer
  have "''a'' \<in> record_keys ((interval_elapsed ^^ Suc (nat 18014398509481984)) ?st1)
    \<and> map_of (session_timers ((interval_elapsed ^^ Suc (nat 18014398509481984)) ?st1)) ''a''
        = Some 18014398509481984"
    unfolding still by (rule conjI)
  with h1 h3 h4 show ?thesis by blast
qed

section \<open>Lazy expiration\<close>

text \<open>
  Claim C1, as amended. Where the Record Table holds under an id a record whose
  \<^verbatim>\<open>cookie.expires\<close> is a time before now, given as a number other than 0 or as a date
  string, \<^verbatim>\<open>get\<close> completes with \<^verbatim>\<open>undefined\<close> (not found) and leaves the id in
  neither table; and whenever \<^verbatim>\<open>all\<close> completes, its result does not hold the id and
  the id is in neither table. The store is any store, so also the one a \<^verbatim>\<open>set\<close> has
  just left.
\<close>

theorem expired_record_never_returned:
  assumes "decoded P st i = Some (Inr sess)"
    and "cookie_expires sess = Inr e"
    and "e = JNum t \<and> t \<noteq> 0 \<or> (\<exists>d. e = JStr d \<and> Date_parse P d = Some t)"
    and "t < now"
  shows "fst (MemoryStore_get P now i st) = Inr JUndefined
    \<and> i \<notin> record_keys (snd (MemoryStore_get P now i st))
    \<and> i \<notin> timer_keys (snd (MemoryStore_get P now i st))
    \<and> (\<forall>found st'. MemoryStore_all P now st = (Inr found, st') \<longrightarrow>
          map_of found i = None \<and> i \<notin> record_keys st' \<and> i \<notin> timer_keys st')"
proof -
  from assms(4) have "t \<le> now" by simp
  from past_timestamp_expired [OF assms(2,3) this]
  have ex: "session_expired P now sess = Inr True" .
  from getSession_evicts [OF assms(1) ex]
  have get: "fst (MemoryStore_get P now i st) = Inr JUndefined
    \<and> i \<notin> record_keys (snd (MemoryStore_get P now i st))
    \<and> i \<notin> timer_keys (snd (MemoryStore_get P now i st))"
    by (simp add: MemoryStore_get_def in_record_keys in_timer_keys)
  have "map_of found i = None \<and> i \<notin> record_keys st' \<and> i \<notin> timer_keys st'"
    if "MemoryStore_all P now st = (Inr found, st')" for found st'
  proof -
    from that have loop: "all_loop P now (map fst (sessions st)) [] st = (Inr found, st')"
      by (simp add: MemoryStore_all_def)
    from all_loop_expired [OF assms(1) ex _ decoded_in_keys [OF assms(1)] loop]
    show ?thesis by (simp add: in_record_keys in_timer_keys)
  qed
  with get show ?thesis by blast
qed

theorem expired_record_never_returned_witness:
  "decoded engine
     (snd (MemoryStore_set engine ''b''
        (JObj [(''cookie'', JObj [(''expires'', JStr ''1970-01-01T00:00:01.000Z'')])])
        (MemoryStore None))) ''b''
     = Some (Inr (JObj [(''cookie'', JObj [(''expires'', JStr ''1970-01-01T00:00:01.000Z'')])]))
   \<and> cookie_expires (JObj [(''cookie'', JObj [(''expires'', JStr ''1970-01-01T00:00:01.000Z'')])])
     = Inr (JStr ''1970-01-01T00:00:01.000Z'')
   \<and> Date_parse engine ''1970-01-01T00:00:01.000Z'' = Some 1000
   \<and> (1000::int) < 2000
   \<and> fst (MemoryStore_get engine 2000 ''b''
       (snd (MemoryStore_set engine ''b''
          (JObj [(''cookie'', JObj [(''expires'', JStr ''1970-01-01T00:00:01.000Z'')])])
          (MemoryStore None)))) = Inr JUndefined
   \<and> fst (MemoryStore_all engine 2000
       (snd (MemoryStore_set engine ''b''
          (JObj [(''cookie'', JObj [(''expires'', JStr ''1970-01-01T00:00:01.000Z'')])])
          (MemoryStore None)))) = Inr []"
proof -
  let ?r = "JObj [(''cookie'', JObj [(''expires'', JStr ''1970-01-01T00:00:01.000Z'')])]"
  let ?st = "snd (MemoryStore_set engine ''b'' ?r (MemoryStore None))"
  have h1: "decoded engine ?st ''b'' = Some (Inr ?r)" by code_simp
  have h2: "cookie_expires ?r = Inr (JStr ''1970-01-01T00:00:01.000Z'')" by code_simp
  have d: "Date_parse engine ''1970-01-01T00:00:01.000Z'' = Some 1000" by code_simp
  have h3: "JStr ''1970-01-01T00:00:01.000Z'' = JNum 1000 \<and> (1000::int) \<noteq> 0
    \<or> (\<exists>d. JStr ''1970-01-01T00:00:01.000Z'' = JStr d \<and> Date_parse engine d = Some 1000)"
    using d by simp
  have h4: "(1000::int) < 2000" by simp
  have a: "fst (MemoryStore_all engine 2000 ?st) = Inr []" by code_simp
  from expired_record_never_returned [OF h1 h2 h3 h4] h1 h2 d h4 a show ?thesis
    by simp
qed

text \<open>
  Claim C1 as stated fails for the time stamp 0: \<^verbatim>\<open>expires && ...\<close> at line 209 takes
  the number 0 as no expiry. At time 1000 a record set with \<^verbatim>\<open>cookie.expires = 0\<close> is
  returned by \<^verbatim>\<open>get\<close> and stays in the Record Table.
\<close>

theorem zero_expires_is_returned:
  "decoded engine
     (snd (MemoryStore_set engine ''b'' (JObj [(''cookie'', JObj [(''expires'', JNum 0)])])
        (MemoryStore None))) ''b''
     = Some (Inr (JObj [(''cookie'', JObj [(''expires'', JNum 0)])]))
   \<and> cookie_expires (JObj [(''cookie'', JObj [(''expires'', JNum 0)])]) = Inr (JNum 0)
   \<and> (0::int) < 1000
   \<and> fst (MemoryStore_get engine 1000 ''b''
       (snd (MemoryStore_set engine ''b'' (JObj [(''cookie'', JObj [(''expires'', JNum 0)])])
          (MemoryStore None))))
     = Inr (JObj [(''cookie'', JObj [(''expires'', JNum 0)])])
   \<and> ''b'' \<in> record_keys (snd (MemoryStore_get engine 1000 ''b''
       (snd (MemoryStore_set engine ''b'' (JObj [(''cookie'', JObj [(''expires'', JNum 0)])])
          (MemoryStore None)))))"
  by code_simp

text \<open>
  Claim C10. A record whose \<^verbatim>\<open>cookie.expires\<close> is exactly now (a number, or a date
  string of that time) is expired: \<^verbatim>\<open>get\<close> completes with \<^verbatim>\<open>undefined\<close> and the id is
  in neither table afterwards. A record whose \<^verbatim>\<open>cookie.expires\<close> is absent, \<^verbatim>\<open>null\<close>,
  0 or \<^verbatim>\<open>false\<close> is returned whatever the time. (The number 0 is falsy, so the first
  part is about a time other than 0.)
\<close>

theorem expiry_boundary_inclusive:
  assumes "decoded P st i = Some (Inr sess)"
    and "cookie_expires sess = Inr e"
  shows "(e = JNum now \<and> now \<noteq> 0 \<or> (\<exists>d. e = JStr d \<and> Date_parse P d = Some now) \<longrightarrow>
            fst (MemoryStore_get P now i st) = Inr JUndefined
            \<and> i \<notin> record_keys (snd (MemoryStore_get P now i st))
            \<and> i \<notin> timer_keys (snd (MemoryStore_get P now i st)))
    \<and> (e = JUndefined \<or> e = JNull \<or> e = JNum 0 \<or> e = JBool False \<longrightarrow>
            fst (MemoryStore_get P now i st) = Inr sess
            \<and> i \<in> record_keys (snd (MemoryStore_get P now i st)))"
proof -
  have "fst (MemoryStore_get P now i st) = Inr JUndefined
      \<and> i \<notin> record_keys (snd (MemoryStore_get P now i st))
      \<and> i \<notin> timer_keys (snd (MemoryStore_get P now i st))"
    if b: "e = JNum now \<and> now \<noteq> 0 \<or> (\<exists>d. e = JStr d \<and> Date_parse P d = Some now)"
  proof -
    from past_timestamp_expired [OF assms(2) b]
    have "session_expired P now sess = Inr True" by simp
    from getSession_evicts [OF assms(1) this] show ?thesis
      by (simp add: MemoryStore_get_def in_record_keys in_timer_keys)
  qed
  moreover have "fst (MemoryStore_get P now i st) = Inr sess
      \<and> i \<in> record_keys (snd (MemoryStore_get P now i st))"
    if f: "e = JUndefined \<or> e = JNull \<or> e = JNum 0 \<or> e = JBool False"
  proof -
    from f assms(2) have "session_expired P now sess = Inr False"
      by (auto simp: session_expired_def expired_timestamp)
    from getSession_found [OF assms(1) this] assms(1) show ?thesis
      by (auto simp: MemoryStore_get_def in_record_keys decoded_def stored_def
          split: option.splits)
  qed
  ultimately show ?thesis by blast
qed

theorem expiry_boundary_inclusive_witness:
  "decoded engine
     (snd (MemoryStore_set engine ''c'' (JObj [(''cookie'', JObj [(''expires'', JNum 1000)])])
        (MemoryStore None))) ''c''
     = Some (Inr (JObj [(''cookie'', JObj [(''expires'', JNum 1000)])]))
   \<and> cookie_expires (JObj [(''cookie'', JObj [(''expires'', JNum 1000)])]) = Inr (JNum 1000)
   \<and> fst (MemoryStore_get engine 1000 ''c''
       (snd (MemoryStore_set engine ''c'' (JObj [(''cookie'', JObj [(''expires'', JNum 1000)])])
          (MemoryStore None)))) = Inr JUndefined
   \<and> decoded engine
     (snd (MemoryStore_set engine ''d'' (JObj [(''cookie'', JObj [(''expires'', JNull)])])
        (MemoryStore None))) ''d''
     = Some (Inr (JObj [(''cookie'', JObj [(''expires'', JNull)])]))
   \<and> cookie_expires (JObj [(''cookie'', JObj [(''expires'', JNull)])]) = Inr JNull
   \<and> fst (MemoryStore_get engine 1000 ''d''
       (snd (MemoryStore_set engine ''d'' (JObj [(''cookie'', JObj [(''expires'', JNull)])])
          (MemoryStore None))))
     = Inr (JObj [(''cookie'', JObj [(''expires'', JNull)])])"
proof -
  let ?r = "JObj [(''cookie'', JObj [(''expires'', JNum 1000)])]"
  let ?st = "snd (MemoryStore_set engine ''c'' ?r (MemoryStore None))"
  let ?q = "JObj [(''cookie'', JObj [(''expires'', JNull)])]"
  let ?su = "snd (MemoryStore_set engine ''d'' ?q (MemoryStore None))"
  have h1: "decoded engine ?st ''c'' = Some (Inr ?r)" by code_simp
  have h2: "cookie_expires ?r = Inr (JNum 1000)" by code_simp
  have k1: "decoded engine ?su ''d'' = Some (Inr ?q)" by code_simp
  have k2: "cookie_expires ?q = Inr JNull" by code_simp
  from expiry_boundary_inclusive [OF h1 h2, of 1000]
    expiry_boundary_inclusive [OF k1 k2, of 1000] h1 h2 k1 k2
  show ?thesis by simp
qed

section \<open>Entries that cannot be read\<close>

text \<open>
  Claim C9. Where the string stored under an id does not decode, or decodes to a value
  that is not an object with a \<^verbatim>\<open>cookie\<close> property, \<^verbatim>\<open>get\<close> and \<^verbatim>\<open>touch\<close> of that id
  throw (the decoder's error, or a \<^verbatim>\<open>TypeError\<close>), and so do \<^verbatim>\<open>all\<close> and \<^verbatim>\<open>length\<close>;
  none completes with not found. The string is one that \<^verbatim>\<open>getSession\<close> goes on to
  decode, so not the empty string, which line 194 takes as no session (and which
  \<^verbatim>\<open>JSON.stringify\<close> never returns).
\<close>

theorem malformed_entry_makes_reads_throw:
  assumes "decoded P st i = Some d"
    and "(\<exists>e. d = Inl e) \<or> (\<exists>v. d = Inr v \<and> lacks_cookie v)"
  shows "thrown P (now, Op_get i) st = Some (case d of Inl e \<Rightarrow> e | Inr v \<Rightarrow> TypeError)
    \<and> thrown P (now, Op_touch i session) st
        = Some (case d of Inl e \<Rightarrow> e | Inr v \<Rightarrow> TypeError)
    \<and> thrown P (now, Op_all) st \<noteq> None
    \<and> thrown P (now, Op_length) st \<noteq> None"
proof -
  let ?e = "case d of Inl e \<Rightarrow> e | Inr v \<Rightarrow> TypeError"
  from assms(2) have "d = Inl ?e \<or> (\<exists>sess. d = Inr sess \<and> session_expired P now sess = Inl ?e)"
    using lacks_cookie_throws by auto
  from getSession_throws [OF assms(1) this]
  have g: "fst (getSession P now i st) = Inl ?e" .
  then have get: "thrown P (now, Op_get i) st = Some ?e"
    by (simp add: MemoryStore_get_def raised_def)
  from g have touch: "thrown P (now, Op_touch i session) st = Some ?e"
    by (cases "getSession P now i st") (simp add: MemoryStore_touch_def raised_def)
  from all_loop_throws [OF assms decoded_in_keys [OF assms(1)], of now "[]"]
  obtain e where a: "fst (MemoryStore_all P now st) = Inl e"
    by (auto simp: MemoryStore_all_def)
  then have all: "thrown P (now, Op_all) st \<noteq> None"
    by (simp add: raised_def)
  from a have "thrown P (now, Op_length) st \<noteq> None"
    by (cases "MemoryStore_all P now st") (simp add: MemoryStore_length_def raised_def)
  with get touch all show ?thesis by simp
qed

theorem malformed_entry_makes_reads_throw_witness:
  "decoded engine
     (snd (MemoryStore_set engine ''e'' (JObj [(''user'', JStr ''ann'')]) (MemoryStore None))) ''e''
     = Some (Inr (JObj [(''user'', JStr ''ann'')]))
   \<and> lacks_cookie (JObj [(''user'', JStr ''ann'')])
   \<and> thrown engine (0, Op_get ''e'')
       (snd (MemoryStore_set engine ''e'' (JObj [(''user'', JStr ''ann'')]) (MemoryStore None)))
     = Some TypeError
   \<and> thrown engine (0, Op_all)
       (snd (MemoryStore_set engine ''e'' (JObj [(''user'', JStr ''ann'')]) (MemoryStore None)))
     \<noteq> None"
proof -
  let ?r = "JObj [(''user'', JStr ''ann'')]"
  let ?st = "snd (MemoryStore_set engine ''e'' ?r (MemoryStore None))"
  have h1: "decoded engine ?st ''e'' = Some (Inr ?r)" by code_simp
  have l: "lacks_cookie ?r" by code_simp
  then have h2: "(\<exists>e. (Inr ?r :: error + jsval) = Inl e) \<or> (\<exists>v. (Inr ?r :: error + jsval) = Inr v \<and> lacks_cookie v)"
    by simp
  from malformed_entry_makes_reads_throw [OF h1 h2, of 0 JNull] h1 l show ?thesis
    by simp
qed

section \<open>The record that comes back\<close>

text \<open>
  Claim C5. For a record of supported values whose \<^verbatim>\<open>cookie.expires\<close> is absent,
  \<^verbatim>\<open>null\<close> or a time after now (a number, or a date string), \<^verbatim>\<open>set\<close> completes and a
  \<^verbatim>\<open>get\<close> of the same id right after returns that very record, property for property.
  The codec is the engine's; it is taken as the reference codec, which is proved above
  to lose nothing on any supported value.
\<close>

theorem get_after_set_round_trip:
  assumes "supported r"
    and "cookie_expires r = Inr e"
    and "e = JUndefined \<or> e = JNull \<or> (\<exists>t. e = JNum t \<and> now < t)
         \<or> (\<exists>d t. e = JStr d \<and> Date_parse engine d = Some t \<and> now < t)"
  shows "fst (MemoryStore_set engine i r st) = Inr ()
    \<and> fst (MemoryStore_get engine now i (snd (MemoryStore_set engine i r st))) = Inr r"
proof -
  from supported_lossless [OF assms(1)]
  obtain s where enc: "JSON_stringify engine r = Inr (Some s)"
    and s: "s \<noteq> []" and dec: "JSON_parse engine s = Inr r"
    by (auto simp: lossless_def split: sum.splits option.splits)
  let ?st = "snd (MemoryStore_set engine i r st)"
  from enc have ok: "fst (MemoryStore_set engine i r st) = Inr ()"
    by (simp add: MemoryStore_set_def Let_def)
  from enc s dec have d: "decoded engine ?st i = Some (Inr r)"
    by (simp add: MemoryStore_set_def Let_def decoded_def stored_def AList.update_conv')
  from assms(2,3) have "session_expired engine now r = Inr False"
    by (auto simp: session_expired_def expired_timestamp)
  from getSession_found [OF d this] ok show ?thesis
    by (simp add: MemoryStore_get_def)
qed

theorem get_after_set_round_trip_witness:
  "supported
     (JObj [(''cookie'', JObj [(''expires'', JStr ''2000-01-01T00:00:00.000Z''), (''path'', JStr ''/'')]),
            (''user'', JStr ''ann''), (''visits'', JNum 3), (''tags'', JArr [JStr ''a'', JBool True, JNull])])
   \<and> cookie_expires
     (JObj [(''cookie'', JObj [(''expires'', JStr ''2000-01-01T00:00:00.000Z''), (''path'', JStr ''/'')]),
            (''user'', JStr ''ann''), (''visits'', JNum 3), (''tags'', JArr [JStr ''a'', JBool True, JNull])])
     = Inr (JStr ''2000-01-01T00:00:00.000Z'')
   \<and> Date_parse engine ''2000-01-01T00:00:00.000Z'' = Some 946684800000
   \<and> (946684000000::int) < 946684800000
   \<and> fst (MemoryStore_get engine 946684000000 ''f''
       (snd (MemoryStore_set engine ''f''
         (JObj [(''cookie'', JObj [(''expires'', JStr ''2000-01-01T00:00:00.000Z''), (''path'', JStr ''/'')]),
            (''user'', JStr ''ann''), (''visits'', JNum 3), (''tags'', JArr [JStr ''a'', JBool True, JNull])])
         (MemoryStore (Some 3)))))
     = Inr (JObj [(''cookie'', JObj [(''expires'', JStr ''2000-01-01T00:00:00.000Z''), (''path'', JStr ''/'')]),
            (''user'', JStr ''ann''), (''visits'', JNum 3), (''tags'', JArr [JStr ''a'', JBool True, JNull])])"
proof -
  let ?r = "JObj [(''cookie'', JObj [(''expires'', JStr ''2000-01-01T00:00:00.000Z''), (''path'', JStr ''/'')]),
            (''user'', JStr ''ann''), (''visits'', JNum 3), (''tags'', JArr [JStr ''a'', JBool True, JNull])]"
  have h1: "supported ?r" by code_simp
  have h2: "cookie_expires ?r = Inr (JStr ''2000-01-01T00:00:00.000Z'')" by code_simp
  have d: "Date_parse engine ''2000-01-01T00:00:00.000Z'' = Some 946684800000" by code_simp
  have lt: "(946684000000::int) < 946684800000" by simp
  from d lt have h3: "JStr ''2000-01-01T00:00:00.000Z'' = JUndefined
      \<or> JStr ''2000-01-01T00:00:00.000Z'' = JNull
      \<or> (\<exists>t. JStr ''2000-01-01T00:00:00.000Z'' = JNum t \<and> 946684000000 < t)
      \<or> (\<exists>d t. JStr ''2000-01-01T00:00:00.000Z'' = JStr d \<and> Date_parse engine d = Some t
            \<and> 946684000000 < t)"
    by simp
  from get_after_set_round_trip [OF h1 h2 h3, of "''f''" "MemoryStore (Some 3)"] h1 h2 d lt
  show ?thesis by simp
qed

section \<open>Touching a session\<close>

text \<open>
  Claim C6. Where an id holds a record \<open>r1\<close> that is not expired, and the encoder
  completes, \<^verbatim>\<open>touch\<close> with \<open>r2\<close> completes and stores under the id the encoding of
  \<open>r1\<close> with its \<^verbatim>\<open>cookie\<close> replaced by that of \<open>r2\<close> (and resets the countdown): every
  other property reads as in \<open>r1\<close>, and where the codec is lossless on the new record
  that is the record the Record Table then holds. Where \<^verbatim>\<open>get\<close> finds nothing under
  the id, \<^verbatim>\<open>touch\<close> completes, leaves the store as that \<^verbatim>\<open>get\<close> would, and the Record
  Table gains no key.
\<close>

theorem touch_replaces_cookie_only:
  "(decoded P st i = Some (Inr r1) \<and> session_expired P now r1 = Inr False
      \<and> get_prop r2 ''cookie'' = Inr c2
      \<and> JSON_stringify P (set_prop r1 ''cookie'' c2) = Inr s' \<longrightarrow>
        MemoryStore_touch P now i r2 st =
          (Inr (),
           st\<lparr>session_timers := AList.update i (options_timeout st) (session_timers st),
              sessions := AList.update i s' (sessions st)\<rparr>)
        \<and> get_prop (set_prop r1 ''cookie'' c2) ''cookie'' = Inr c2
        \<and> (\<forall>k. k \<noteq> ''cookie'' \<longrightarrow> get_prop (set_prop r1 ''cookie'' c2) k = get_prop r1 k)
        \<and> (lossless P (set_prop r1 ''cookie'' c2) \<longrightarrow>
              decoded P (snd (MemoryStore_touch P now i r2 st)) i
                = Some (Inr (set_prop r1 ''cookie'' c2))))
   \<and> (fst (MemoryStore_get P now i st) = Inr JUndefined \<longrightarrow>
        MemoryStore_touch P now i r2 st = (Inr (), snd (MemoryStore_get P now i st))
        \<and> record_keys (snd (MemoryStore_touch P now i r2 st)) \<subseteq> record_keys st)"
proof -
  have found: "MemoryStore_touch P now i r2 st =
          (Inr (),
           st\<lparr>session_timers := AList.update i (options_timeout st) (session_timers st),
              sessions := AList.update i s' (sessions st)\<rparr>)
        \<and> get_prop (set_prop r1 ''cookie'' c2) ''cookie'' = Inr c2
        \<and> (\<forall>k. k \<noteq> ''cookie'' \<longrightarrow> get_prop (set_prop r1 ''cookie'' c2) k = get_prop r1 k)
        \<and> (lossless P (set_prop r1 ''cookie'' c2) \<longrightarrow>
              decoded P (snd (MemoryStore_touch P now i r2 st)) i
                = Some (Inr (set_prop r1 ''cookie'' c2)))"
    if d: "decoded P st i = Some (Inr r1)" and ne: "session_expired P now r1 = Inr False"
      and c: "get_prop r2 ''cookie'' = Inr c2"
      and enc: "JSON_stringify P (set_prop r1 ''cookie'' c2) = Inr s'"
  proof -
    from session_expired_object [OF ne] obtain kvs where r1: "r1 = JObj kvs" by blast
    have t: "MemoryStore_touch P now i r2 st =
          (Inr (),
           st\<lparr>session_timers := AList.update i (options_timeout st) (session_timers st),
              sessions := AList.update i s' (sessions st)\<rparr>)"
      using getSession_found [OF d ne] c enc r1 by (simp add: MemoryStore_touch_def)
    have f: "get_prop (set_prop r1 ''cookie'' c2) ''cookie'' = Inr c2
        \<and> (\<forall>k. k \<noteq> ''cookie'' \<longrightarrow> get_prop (set_prop r1 ''cookie'' c2) k = get_prop r1 k)"
      unfolding r1 using set_prop_fields by blast
    have "decoded P (snd (MemoryStore_touch P now i r2 st)) i
                = Some (Inr (set_prop r1 ''cookie'' c2))"
      if "lossless P (set_prop r1 ''cookie'' c2)"
      using that enc unfolding t
      by (auto simp: lossless_def decoded_def stored_def AList.update_conv'
          split: option.splits)
    with t f show ?thesis by blast
  qed
  have absent: "MemoryStore_touch P now i r2 st = (Inr (), snd (MemoryStore_get P now i st))
        \<and> record_keys (snd (MemoryStore_touch P now i r2 st)) \<subseteq> record_keys st"
    if u: "fst (MemoryStore_get P now i st) = Inr JUndefined"
  proof -
    obtain st1 where g: "getSession P now i st = (Inr JUndefined, st1)"
      using u by (cases "getSession P now i st") (simp add: MemoryStore_get_def)
    then have t: "MemoryStore_touch P now i r2 st = (Inr (), st1)"
      by (simp add: MemoryStore_touch_def)
    have "record_keys st1 \<subseteq> record_keys st"
    proof
      fix k assume k: "k \<in> record_keys st1"
      show "k \<in> record_keys st"
      proof (cases "k = i")
        case True
        from g have "map_of (sessions st1) i = None \<or> st1 = st"
          by (auto simp: getSession_decoded Let_def AList.delete_conv'
              split: option.splits sum.splits bool.splits dest: session_expired_object)
        with k True show ?thesis by (auto simp: in_record_keys)
      next
        case False
        with getSession_sessions_other [of i k P now st] g k show ?thesis
          by (simp add: in_record_keys)
      qed
    qed
    with t g show ?thesis by (simp add: MemoryStore_get_def)
  qed
  from found absent show ?thesis by blast
qed

theorem touch_replaces_cookie_only_witness:
  \<open>decoded engine
     (snd (MemoryStore_set engine ''g''
        (JObj [(''cookie'', JObj [(''path'', JStr ''/'')]), (''user'', JStr ''ann'')])
        (MemoryStore (Some 2)))) ''g''
     = Some (Inr (JObj [(''cookie'', JObj [(''path'', JStr ''/'')]), (''user'', JStr ''ann'')]))
   \<and> session_expired engine 0
       (JObj [(''cookie'', JObj [(''path'', JStr ''/'')]), (''user'', JStr ''ann'')]) = Inr False
   \<and> get_prop (JObj [(''cookie'', JObj [(''path'', JStr ''/x'')])]) ''cookie''
       = Inr (JObj [(''path'', JStr ''/x'')])
   \<and> JSON_stringify engine
       (set_prop (JObj [(''cookie'', JObj [(''path'', JStr ''/'')]), (''user'', JStr ''ann'')])
          ''cookie'' (JObj [(''path'', JStr ''/x'')]))
       = Inr (Some ''{"cookie":{"path":"/x"},"user":"ann"}'')
   \<and> lossless engine
       (set_prop (JObj [(''cookie'', JObj [(''path'', JStr ''/'')]), (''user'', JStr ''ann'')])
          ''cookie'' (JObj [(''path'', JStr ''/x'')]))
   \<and> decoded engine
       (snd (MemoryStore_touch engine 0 ''g'' (JObj [(''cookie'', JObj [(''path'', JStr ''/x'')])])
         (snd (MemoryStore_set engine ''g''
            (JObj [(''cookie'', JObj [(''path'', JStr ''/'')]), (''user'', JStr ''ann'')])
            (MemoryStore (Some 2)))))) ''g''
       = Some (Inr (JObj [(''cookie'', JObj [(''path'', JStr ''/x'')]), (''user'', JStr ''ann'')]))
   \<and> fst (MemoryStore_get engine 0 ''z'' (MemoryStore None)) = Inr JUndefined
   \<and> MemoryStore_touch engine 0 ''z'' (JObj [(''cookie'', JObj [])]) (MemoryStore None)
       = (Inr (), MemoryStore None)\<close>
proof -
  let ?r1 = "JObj [(''cookie'', JObj [(''path'', JStr ''/'')]), (''user'', JStr ''ann'')]"
  let ?r2 = "JObj [(''cookie'', JObj [(''path'', JStr ''/x'')])]"
  let ?c2 = "JObj [(''path'', JStr ''/x'')]"
  let ?st = "snd (MemoryStore_set engine ''g'' ?r1 (MemoryStore (Some 2)))"
  have h1: "decoded engine ?st ''g'' = Some (Inr ?r1)" by code_simp
  have h2: "session_expired engine 0 ?r1 = Inr False" by code_simp
  have h3: "get_prop ?r2 ''cookie'' = Inr ?c2" by code_simp
  have h4: \<open>JSON_stringify engine (set_prop ?r1 ''cookie'' ?c2)
      = Inr (Some ''{"cookie":{"path":"/x"},"user":"ann"}'')\<close> by code_simp
  have h5: "lossless engine (set_prop ?r1 ''cookie'' ?c2)" by code_simp
  have k1: "fst (MemoryStore_get engine 0 ''z'' (MemoryStore None)) = Inr JUndefined"
    by code_simp
  have k2: "snd (MemoryStore_get engine 0 ''z'' (MemoryStore None)) = MemoryStore None"
    by code_simp
  have sp: "set_prop ?r1 ''cookie'' ?c2
      = JObj [(''cookie'', JObj [(''path'', JStr ''/x'')]), (''user'', JStr ''ann'')]"
    by simp
  have a: "decoded engine (snd (MemoryStore_touch engine 0 ''g'' ?r2 ?st)) ''g''
      = Some (Inr (set_prop ?r1 ''cookie'' ?c2))"
    using touch_replaces_cookie_only [where P = engine and st = ?st and i = "''g''"
      and ?r1.0 = ?r1 and now = 0 and ?r2.0 = ?r2 and ?c2.0 = ?c2
      and s' = \<open>Some ''{"cookie":{"path":"/x"},"user":"ann"}''\<close>]
      h1 h2 h3 h4 h5
    by blast
  have b: "MemoryStore_touch engine 0 ''z'' (JObj [(''cookie'', JObj [])]) (MemoryStore None)
      = (Inr (), snd (MemoryStore_get engine 0 ''z'' (MemoryStore None)))"
    using touch_replaces_cookie_only [where P = engine and st = "MemoryStore None"
      and i = "''z''" and now = 0 and ?r2.0 = "JObj [(''cookie'', JObj [])]"] k1
    by blast
  from a b h1 h2 h3 h4 h5 k1 show ?thesis
    unfolding k2 sp by simp
qed

section \<open>When the countdown is reset\<close>

text \<open>
  Claim C3, as amended. The countdown of a key is set to the configured timeout when
  \<^verbatim>\<open>set\<close> creates the key, and on every read that finds its record: by \<^verbatim>\<open>get\<close>, by
  the read inside \<^verbatim>\<open>touch\<close>, and for each record that a completed \<^verbatim>\<open>all\<close> returns. A
  \<^verbatim>\<open>set\<close> on a key that already holds a record leaves the Timer Table as it was.
\<close>

theorem countdown_reset_on_create_and_read:
  "(i \<notin> record_keys st \<longrightarrow>
      map_of (session_timers (snd (MemoryStore_set P i r st))) i = Some (options_timeout st))
   \<and> (fst (MemoryStore_get P now i st) = Inr v \<and> truthy v \<longrightarrow>
      map_of (session_timers (snd (MemoryStore_get P now i st))) i = Some (options_timeout st)
      \<and> map_of (session_timers (snd (MemoryStore_touch P now i r2 st))) i
          = Some (options_timeout st))
   \<and> (distinct (map fst (sessions st)) \<and> MemoryStore_all P now st = (Inr found, st')
        \<and> map_of found i = Some v \<longrightarrow>
      map_of (session_timers st') i = Some (options_timeout st))
   \<and> (map_of (sessions st) i = Some (Some s) \<longrightarrow>
      session_timers (snd (MemoryStore_set P i r st)) = session_timers st)"
proof -
  have create: "map_of (session_timers (snd (MemoryStore_set P i r st))) i
      = Some (options_timeout st)"
    if "i \<notin> record_keys st"
    using that
    by (auto simp: in_record_keys MemoryStore_set_def Let_def AList.update_conv'
        split: sum.splits)
  have read: "map_of (session_timers (snd (MemoryStore_get P now i st))) i
        = Some (options_timeout st)
      \<and> map_of (session_timers (snd (MemoryStore_touch P now i r2 st))) i
          = Some (options_timeout st)"
    if "fst (MemoryStore_get P now i st) = Inr v \<and> truthy v"
    using that getSession_found_timer [of P now i st v]
    by (simp add: MemoryStore_get_def touch_timers)
  have enum: "map_of (session_timers st') i = Some (options_timeout st)"
    if "distinct (map fst (sessions st)) \<and> MemoryStore_all P now st = (Inr found, st')
        \<and> map_of found i = Some v"
  proof -
    from that have d: "distinct (map fst (sessions st))"
      and loop: "all_loop P now (map fst (sessions st)) [] st = (Inr found, st')"
      and f: "map_of found i \<noteq> None"
      by (simp_all add: MemoryStore_all_def)
    from all_loop_timers [OF d _ loop] f show ?thesis by simp
  qed
  have again: "session_timers (snd (MemoryStore_set P i r st)) = session_timers st"
    if "map_of (sessions st) i = Some (Some s)"
    using that by (simp add: MemoryStore_set_def Let_def split: sum.splits)
  from create read enum again show ?thesis by blast
qed

theorem countdown_reset_on_create_and_read_witness:
  "''a'' \<notin> record_keys (MemoryStore (Some 2))
   \<and> map_of (session_timers
        (snd (MemoryStore_set engine ''a'' (JObj [(''cookie'', JObj [])]) (MemoryStore (Some 2)))))
        ''a'' = Some 2
   \<and> fst (MemoryStore_get engine 0 ''a''
        (run engine [(0, Op_set ''a'' (JObj [(''cookie'', JObj [])])), (0, Op_sweep)]
          (MemoryStore (Some 2))))
      = Inr (JObj [(''cookie'', JObj [])])
   \<and> truthy (JObj [(''cookie'', JObj [])])
   \<and> map_of (session_timers
        (run engine [(0, Op_set ''a'' (JObj [(''cookie'', JObj [])])), (0, Op_sweep)]
          (MemoryStore (Some 2)))) ''a'' = Some 1
   \<and> map_of (session_timers (snd (MemoryStore_get engine 0 ''a''
        (run engine [(0, Op_set ''a'' (JObj [(''cookie'', JObj [])])), (0, Op_sweep)]
          (MemoryStore (Some 2)))))) ''a'' = Some 2"
proof -
  let ?r = "JObj [(''cookie'', JObj [])]"
  let ?st = "run engine [(0, Op_set ''a'' ?r), (0, Op_sweep)] (MemoryStore (Some 2))"
  have h1: "''a'' \<notin> record_keys (MemoryStore (Some 2))"
    by (simp add: record_keys_def MemoryStore_def)
  have h2: "fst (MemoryStore_get engine 0 ''a'' ?st) = Inr ?r" by code_simp
  have h3: "truthy ?r" by simp
  have b: "map_of (session_timers ?st) ''a'' = Some 1" by code_simp
  have t: "options_timeout ?st = 2" "options_timeout (MemoryStore (Some 2)) = 2"
    by code_simp+
  have c: "map_of (session_timers
        (snd (MemoryStore_set engine ''a'' ?r (MemoryStore (Some 2))))) ''a'' = Some 2"
    using countdown_reset_on_create_and_read [where P = engine and i = "''a''"
        and st = "MemoryStore (Some 2)" and r = ?r] h1 t(2)
    by simp
  have g: "map_of (session_timers (snd (MemoryStore_get engine 0 ''a'' ?st))) ''a'' = Some 2"
    using countdown_reset_on_create_and_read [where P = engine and i = "''a''"
        and st = ?st and now = 0 and v = ?r] h2 h3 t(1)
    by simp
  from h1 h2 h3 b c g show ?thesis by simp
qed

text \<open>
  Claim C3 as stated fails for a \<^verbatim>\<open>set\<close> on a key that is present: line 154 guards the
  write of the countdown. With timeout 2, after \<^verbatim>\<open>set\<close> and one sweep cycle the
  countdown of the key is 1, and a second \<^verbatim>\<open>set\<close> of the key, which completes, leaves
  it at 1.
\<close>

theorem set_again_keeps_countdown:
  "''a'' \<in> record_keys
      (run engine [(0, Op_set ''a'' (JObj [(''cookie'', JObj [])])), (0, Op_sweep)]
        (MemoryStore (Some 2)))
   \<and> thrown engine (0, Op_set ''a'' (JObj [(''cookie'', JObj [(''path'', JStr ''/'')])]))
      (run engine [(0, Op_set ''a'' (JObj [(''cookie'', JObj [])])), (0, Op_sweep)]
        (MemoryStore (Some 2))) = None
   \<and> map_of (session_timers
      (run engine
        [(0, Op_set ''a'' (JObj [(''cookie'', JObj [])])), (0, Op_sweep),
         (0, Op_set ''a'' (JObj [(''cookie'', JObj [(''path'', JStr ''/'')])]))]
        (MemoryStore (Some 2)))) ''a'' = Some 1
   \<and> options_timeout
      (run engine
        [(0, Op_set ''a'' (JObj [(''cookie'', JObj [])])), (0, Op_sweep),
         (0, Op_set ''a'' (JObj [(''cookie'', JObj [(''path'', JStr ''/'')])]))]
        (MemoryStore (Some 2))) = 2"
  by code_simp

section \<open>The two tables out of step\<close>

text \<open>
  Claim C4 fails on the code. \<^verbatim>\<open>set\<close> writes the countdown of a new key at line 156
  and encodes the session at line 158; when \<^verbatim>\<open>JSON.stringify\<close> throws there (here on
  a \<^verbatim>\<open>BigInt\<close>), the Timer Table has the key and the Record Table has not. By
  \<open>run_keys\<close> the two key sets agree after every sequence of operations in which no
  \<^verbatim>\<open>set\<close> meets a session that the encoder throws on.
\<close>

theorem failed_set_leaves_timer_without_record:
  "thrown engine (0, Op_set ''a'' (JObj [(''cookie'', JObj []), (''n'', JBigInt 1)]))
      (MemoryStore None) = Some TypeError
   \<and> timer_keys
      (run engine [(0, Op_set ''a'' (JObj [(''cookie'', JObj []), (''n'', JBigInt 1)]))]
        (MemoryStore None)) = {''a''}
   \<and> record_keys
      (run engine [(0, Op_set ''a'' (JObj [(''cookie'', JObj []), (''n'', JBigInt 1)]))]
        (MemoryStore None)) = {}"
  by code_simp

end
